theory Spec2Isabelle
  imports Main "HOL-Library.Sublist"
begin

section \<open>The font registry of src/Font.js\<close>

text \<open>
  The module keeps two JavaScript objects, \<open>loaded\<close> and \<open>loadPromises\<close>, and exports
  \<open>processFontFamily\<close>, \<open>isLoaded\<close>, \<open>isLoading\<close> and the asynchronous \<open>loadAsync\<close>.
  The model is a state record and one function per source function. An asynchronous
  function is cut at its \<open>await\<close>s: the part that runs synchronously when it is called,
  and one continuation per \<open>await\<close>, run when the awaited promise of the collaborator
  settles. Runs of the program are sequences of events: calls of the public functions
  and settlements of the collaborators' promises. The functions keep the source's names
  (without the leading underscore of the private ones), and arguments are of the types
  the source's Flow annotations give them.
\<close>

subsection \<open>Values\<close>

text \<open>
  What a rejected promise carries: an \<open>invariant\<close> violation (with its message), an
  \<open>Error\<close> thrown by the module (with its message), a \<open>TypeError\<close> of the runtime, or the
  reason a collaborator (asset download, native font loader) rejected with.
\<close>

datatype error =
    InvariantViolation string
  | Error string
  | TypeError string
  | Rejection string

text \<open>A settled promise of type \<open>Promise<void>\<close>.\<close>

datatype settled = Fulfilled | Rejected error

text \<open>
  An \<open>Asset\<close> object of expo-asset, by identity: the one \<open>Asset.fromModule(n)\<close> returns,
  or one the caller holds. Its fields \<open>downloaded\<close> and \<open>localUri\<close> are the collaborator's
  and are read when the download has completed.
\<close>

datatype asset = FromModule int | Handle nat

record assetFields =
  downloaded :: bool
  localUri :: "string option"

text \<open>\<open>type FontSource = string | number | Asset\<close>; the optional parameter is an option.\<close>

datatype fontSource = Uri string | Module int | AssetSource asset

text \<open>\<open>Constants.systemFonts\<close>, \<open>Constants.sessionId\<close> and the global \<open>__DEV__\<close>.\<close>

record environment =
  systemFonts :: "string list"
  sessionId :: string
  DEV :: bool

text \<open>The argument and result of \<open>processFontFamily\<close>, of type \<open>?string\<close>.\<close>

datatype maybeString = Null | Undefined | Str string

text \<open>
  What the module prints: the two \<open>console.error\<close> diagnostics of
  \<open>processFontFamily\<close>, by the font name they report ("You started loading '...', but
  used it before it finished loading" and "fontFamily '...' is not a system font and
  has not been loaded through Font.loadAsync"), and the \<open>console.warn\<close> of \<open>loadAsync\<close>
  for an array ("Passing in an array to Font.loadAsync ... is deprecated ...").
\<close>

datatype diagnostic = UsedBeforeLoaded string | NotLoaded string | ArrayDeprecated

subsection \<open>JavaScript objects used as dictionaries\<close>

text \<open>
  \<open>loaded\<close> and \<open>loadPromises\<close> are object literals \<open>{}\<close>, so their prototype is
  \<open>Object.prototype\<close>. A map holds the own properties. Reading \<open>obj[name]\<close> finds an own
  property, else a property inherited from \<open>Object.prototype\<close>, else \<open>undefined\<close>;
  \<open>obj.hasOwnProperty(name)\<close> looks only at own properties, but the method itself is
  found by the same lookup, so an own property called \<open>hasOwnProperty\<close> would shadow it
  and the call would throw.
\<close>

definition objectPrototypeKeys :: "string list" where
  "objectPrototypeKeys =
     [''constructor'', ''hasOwnProperty'', ''isPrototypeOf'', ''propertyIsEnumerable'',
      ''toLocaleString'', ''toString'', ''valueOf'', ''__proto__'',
      ''__defineGetter__'', ''__defineSetter__'', ''__lookupGetter__'', ''__lookupSetter__'']"

datatype 'v property = Own 'v | Inherited | Absent

definition getProperty :: "(string \<rightharpoonup> 'v) \<Rightarrow> string \<Rightarrow> 'v property" where
  "getProperty obj name =
     (case obj name of
        Some v \<Rightarrow> Own v
      | None \<Rightarrow> if name \<in> set objectPrototypeKeys then Inherited else Absent)"

text \<open>
  Truthiness of \<open>obj[name]\<close>: every property of \<open>Object.prototype\<close> is a function or an
  object, hence truthy; \<open>undefined\<close> is falsy; an own value is judged by \<open>t\<close>.
\<close>

definition truthyProperty :: "('v \<Rightarrow> bool) \<Rightarrow> (string \<rightharpoonup> 'v) \<Rightarrow> string \<Rightarrow> bool" where
  "truthyProperty t obj name =
     (case getProperty obj name of Own v \<Rightarrow> t v | Inherited \<Rightarrow> True | Absent \<Rightarrow> False)"

definition hasOwnProperty :: "(string \<rightharpoonup> 'v) \<Rightarrow> string \<Rightarrow> error + bool" where
  "hasOwnProperty obj name =
     (if obj ''hasOwnProperty'' \<noteq> None
      then Inl (TypeError ''hasOwnProperty is not a function'')
      else Inr (obj name \<noteq> None))"

text \<open>\<open>name.includes(sub)\<close> on strings: \<open>sub\<close> occurs in \<open>name\<close> as a contiguous run.\<close>

fun str_includes :: "string \<Rightarrow> string \<Rightarrow> bool" where
  "str_includes [] sub = (sub = [])"
| "str_includes (x # xs) sub = (prefix sub (x # xs) \<or> str_includes xs sub)"

subsection \<open>The state\<close>

text \<open>
  The promise of the immediately invoked async function of \<open>loadAsync\<close> (lines 115-122),
  called an operation here: the font name and asset it closes over, and where it stands.
  It is suspended at \<open>await asset.downloadAsync()\<close>, or at
  \<open>await ExpoFontLoader.loadAsync(...)\<close>, or its promise has settled.
\<close>

datatype stage = AwaitDownload | AwaitNative | Settled settled

record operation =
  op_name :: string
  op_asset :: asset
  op_stage :: stage

text \<open>
  The promise a call of \<open>loadAsync\<close> hands to its caller. An async function returns a
  promise of its own; it is already settled (\<open>Resolved\<close>) when the call returned or threw
  before any \<open>await\<close>, it takes the state of operation \<open>p\<close> (\<open>Follows p\<close>) when the call
  ends in \<open>return loadPromises[name]\<close> or \<open>await loadPromises[name]\<close>, and it takes the
  state of the \<open>Promise.all\<close> number \<open>k\<close> (\<open>All k\<close>) for a font map or an array of font
  maps. The microtask hops between a promise settling and the promises that follow it
  are not modelled: they settle in the same step.
\<close>

datatype promise = Resolved settled | Follows nat | All nat

text \<open>A \<open>Promise.all\<close>: the promises it was given, in order, and its own state.\<close>

record aggregate =
  members :: "promise list"
  agg_state :: "settled option"

text \<open>Calls made to the collaborators.\<close>

datatype collaboratorCall =
    DownloadAsync asset
  | NativeLoadAsync string "string option"

text \<open>
  The module's state: the own properties of \<open>loaded\<close> and of \<open>loadPromises\<close> (a promise
  is the index of its operation), every operation created so far, every \<open>Promise.all\<close>
  created so far, the calls made to the collaborators (each with the operation that
  made it) and the diagnostics printed.
\<close>

record registry =
  loaded :: "string \<rightharpoonup> bool"
  loadPromises :: "string \<rightharpoonup> nat"
  operations :: "operation list"
  aggregates :: "aggregate list"
  collaboratorCalls :: "(nat \<times> collaboratorCall) list"
  console :: "diagnostic list"

definition initial :: registry where
  "initial = \<lparr>loaded = Map.empty, loadPromises = Map.empty, operations = [],
     aggregates = [], collaboratorCalls = [], console = []\<rparr>"

text \<open>The state of a promise: \<open>None\<close> while it is pending.\<close>

definition stageOutcome :: "stage \<Rightarrow> settled option" where
  "stageOutcome st = (case st of Settled r \<Rightarrow> Some r | _ \<Rightarrow> None)"

definition outcome :: "registry \<Rightarrow> promise \<Rightarrow> settled option" where
  "outcome s pr =
     (case pr of
        Resolved r \<Rightarrow> Some r
      | Follows p \<Rightarrow>
          if p < length (operations s) then stageOutcome (op_stage (operations s ! p)) else None
      | All k \<Rightarrow>
          if k < length (aggregates s) then agg_state (aggregates s ! k) else None)"

subsection \<open>Queries and the name resolver\<close>

definition isLoaded :: "registry \<Rightarrow> string \<Rightarrow> error + bool" where
  "isLoaded s name = hasOwnProperty (loaded s) name"

definition isLoading :: "registry \<Rightarrow> string \<Rightarrow> error + bool" where
  "isLoading s name = hasOwnProperty (loadPromises s) name"

definition getNativeFontName :: "environment \<Rightarrow> string \<Rightarrow> string" where
  "getNativeFontName env name = sessionId env @ ''-'' @ name"

text \<open>
  \<open>processFontFamily\<close> (lines 31-71). It returns its result, or the error it threw, and
  the state, in which it can only have added a diagnostic.
\<close>

definition processFontFamily ::
  "environment \<Rightarrow> maybeString \<Rightarrow> registry \<Rightarrow> (error + maybeString) \<times> registry" where
  "processFontFamily env name s =
     (case name of
        Null \<Rightarrow> (Inr name, s)
      | Undefined \<Rightarrow> (Inr name, s)
      | Str n \<Rightarrow>
          if n = [] \<or> n \<in> set (systemFonts env) \<or> n = ''System'' then (Inr name, s)
          else if str_includes n ''FuturaBT'' then (Inr name, s)
          else if str_includes n (sessionId env) then (Inr name, s)
          else
            (case isLoaded s n of
               Inl e \<Rightarrow> (Inl e, s)
             | Inr True \<Rightarrow> (Inr (Str (''ExpoFont-'' @ getNativeFontName env n)), s)
             | Inr False \<Rightarrow>
                 if DEV env then
                   (case isLoading s n of
                      Inl e \<Rightarrow> (Inl e, s)
                    | Inr True \<Rightarrow>
                        (Inr (Str ''System''), s\<lparr>console := console s @ [UsedBeforeLoaded n]\<rparr>)
                    | Inr False \<Rightarrow>
                        (Inr (Str ''System''), s\<lparr>console := console s @ [NotLoaded n]\<rparr>))
                 else (Inr (Str ''System''), s)))"

subsection \<open>Loading\<close>

text \<open>Truthiness of a source: the empty string and the number 0 are falsy.\<close>

definition truthySource :: "fontSource \<Rightarrow> bool" where
  "truthySource src =
     (case src of
        Uri u \<Rightarrow> u \<noteq> []
      | Module n \<Rightarrow> n \<noteq> 0
      | AssetSource a \<Rightarrow> True)"

definition noSourceMessage :: "string \<Rightarrow> string" where
  "noSourceMessage name =
     ''No source from which to load font '' @ [CHR 0x22] @ name @ [CHR 0x22]"

definition remoteUriMessage :: string where
  "remoteUriMessage =
     ''Loading fonts from remote URIs is temporarily not supported. Please download the font file and load it using require. See: https://docs.expo.io/versions/latest/guides/using-custom-fonts.html#downloading-the-font''"

definition downloadFailedMessage :: "string \<Rightarrow> string" where
  "downloadFailedMessage name =
     ''Failed to download asset for font '' @ [CHR 0x22] @ name @ [CHR 0x22]"

text \<open>
  The message of the error that \<open>invariant(condition, format)\<close> throws: the function,
  of the package \<open>invariant\<close>, takes its second argument as a format and replaces every
  \<open>%s\<close> in it by the next of the arguments that follow the format. Line 113 passes
  none, so every \<open>%s\<close> (the font name may contain some) becomes \<open>undefined\<close>.
\<close>

fun formatWithoutArguments :: "string \<Rightarrow> string" where
  "formatWithoutArguments (c # d # rest) =
     (if c = CHR ''%'' \<and> d = CHR ''s'' then ''undefined'' @ formatWithoutArguments rest
      else c # formatWithoutArguments (d # rest))"
| "formatWithoutArguments cs = cs"

text \<open>
  \<open>invariant(uriOrModuleOrAsset, message)\<close> (line 113): throws unless the source is there
  and truthy.
\<close>

definition invariantSource :: "fontSource option \<Rightarrow> string \<Rightarrow> error + fontSource" where
  "invariantSource src message =
     (case src of
        None \<Rightarrow> Inl (InvariantViolation (formatWithoutArguments message))
      | Some fs \<Rightarrow>
          if truthySource fs then Inr fs
          else Inl (InvariantViolation (formatWithoutArguments message)))"

text \<open>\<open>_getAssetForSource\<close> (lines 127-141).\<close>

definition getAssetForSource :: "fontSource \<Rightarrow> error + asset" where
  "getAssetForSource src =
     (case src of
        Uri u \<Rightarrow> Inl (Error remoteUriMessage)
      | Module n \<Rightarrow> Inr (FromModule n)
      | AssetSource a \<Rightarrow> Inr a)"

text \<open>
  \<open>_loadSingleFontAsync\<close> (lines 143-149) as run by operation \<open>p\<close>. Called, it calls
  \<open>asset.downloadAsync()\<close> and suspends. Resumed with what the download promise settled
  to (the rejection, or the asset's fields as they are then), it throws or calls the
  native loader and suspends again.
\<close>

definition loadSingleFontAsync :: "nat \<Rightarrow> asset \<Rightarrow> registry \<Rightarrow> registry" where
  "loadSingleFontAsync p a s =
     s\<lparr>collaboratorCalls := collaboratorCalls s @ [(p, DownloadAsync a)]\<rparr>"

definition loadSingleFontAsync_resumed ::
  "environment \<Rightarrow> nat \<Rightarrow> string \<Rightarrow> error + assetFields \<Rightarrow> registry \<Rightarrow> error + registry" where
  "loadSingleFontAsync_resumed env p name r s =
     (case r of
        Inl e \<Rightarrow> Inl e
      | Inr a \<Rightarrow>
          if \<not> downloaded a then Inl (Error (downloadFailedMessage name))
          else Inr (s\<lparr>collaboratorCalls := collaboratorCalls s @
                  [(p, NativeLoadAsync (getNativeFontName env name) (localUri a))]\<rparr>))"

text \<open>
  \<open>Promise.all\<close> over the current states of its members: rejected with the reason of the
  first rejected member, fulfilled when every member is fulfilled, pending otherwise.
  A settled \<open>Promise.all\<close> keeps its state.
\<close>

fun isRejected :: "settled option \<Rightarrow> bool" where
  "isRejected (Some (Rejected e)) = True"
| "isRejected r = False"

definition promiseAll :: "settled option list \<Rightarrow> settled option" where
  "promiseAll rs =
     (case find isRejected rs of
        Some r \<Rightarrow> r
      | None \<Rightarrow> if list_all (\<lambda>r. r = Some Fulfilled) rs then Some Fulfilled else None)"

text \<open>A pending \<open>Promise.all\<close> takes the state its members decide now.\<close>

definition refresh :: "registry \<Rightarrow> aggregate \<Rightarrow> aggregate" where
  "refresh s a =
     (if agg_state a = None
      then a\<lparr>agg_state := promiseAll (map (outcome s) (members a))\<rparr>
      else a)"

text \<open>
  When a promise has settled, every pending \<open>Promise.all\<close> looks at its members again,
  the oldest first: a \<open>Promise.all\<close> whose members are \<open>Promise.all\<close>s was created after
  them, and so sees them up to date. \<open>acc\<close> holds the ones already looked at.
\<close>

fun refreshList :: "registry \<Rightarrow> aggregate list \<Rightarrow> aggregate list \<Rightarrow> aggregate list" where
  "refreshList s acc [] = acc"
| "refreshList s acc (a # rest) =
     refreshList s (acc @ [refresh (s\<lparr>aggregates := acc\<rparr>) a]) rest"

text \<open>\<open>Promise.all(promises)\<close>: a new \<open>Promise.all\<close>, in the state its members decide.\<close>

definition newPromiseAll :: "promise list \<Rightarrow> registry \<Rightarrow> promise \<times> registry" where
  "newPromiseAll prs s =
     (All (length (aggregates s)),
      s\<lparr>aggregates := aggregates s @
          [\<lparr>members = prs, agg_state = promiseAll (map (outcome s) prs)\<rparr>]\<rparr>)"

text \<open>
  The end of the async function of lines 115-122 for operation \<open>p\<close>: the \<open>finally\<close> block
  deletes \<open>loadPromises[name]\<close>, the operation's promise settles, and so does every
  pending \<open>Promise.all\<close> that this decides.
\<close>

definition settleOperation :: "nat \<Rightarrow> settled \<Rightarrow> registry \<Rightarrow> registry" where
  "settleOperation p r s =
     (let name = op_name (operations s ! p);
          s1 = s\<lparr>loadPromises := (loadPromises s)(name := None),
                 operations := (operations s)[p := (operations s ! p)\<lparr>op_stage := Settled r\<rparr>]\<rparr>
      in s1\<lparr>aggregates := refreshList s1 [] (aggregates s1)\<rparr>)"

text \<open>
  The operation resumed after \<open>await asset.downloadAsync()\<close>: an error thrown by
  \<open>_loadSingleFontAsync\<close> leaves the \<open>try\<close> block for the \<open>finally\<close> block; otherwise the
  operation waits for the native loader.
\<close>

definition downloadSettled ::
  "environment \<Rightarrow> nat \<Rightarrow> error + assetFields \<Rightarrow> registry \<Rightarrow> registry" where
  "downloadSettled env p r s =
     (case loadSingleFontAsync_resumed env p (op_name (operations s ! p)) r s of
        Inl e \<Rightarrow> settleOperation p (Rejected e) s
      | Inr s1 \<Rightarrow>
          s1\<lparr>operations := (operations s1)[p := (operations s1 ! p)\<lparr>op_stage := AwaitNative\<rparr>]\<rparr>)"

text \<open>
  The operation resumed after \<open>await ExpoFontLoader.loadAsync(...)\<close>: on success
  \<open>loaded[name] = true\<close>, then the \<open>finally\<close> block; on rejection the \<open>finally\<close> block only.
\<close>

definition nativeSettled :: "nat \<Rightarrow> error option \<Rightarrow> registry \<Rightarrow> registry" where
  "nativeSettled p r s =
     (case r of
        Some e \<Rightarrow> settleOperation p (Rejected e) s
      | None \<Rightarrow>
          settleOperation p Fulfilled
            (s\<lparr>loaded := (loaded s)(op_name (operations s ! p) \<mapsto> True)\<rparr>))"

text \<open>
  Lines 115-122 up to the first \<open>await\<close>: the new async function runs synchronously
  until \<open>_loadSingleFontAsync\<close> suspends, so the download has been requested when its
  promise is assigned to \<open>loadPromises[name]\<close>. The assignments
  \<open>loadPromises[name] = ...\<close> here and \<open>loaded[name] = true\<close> above create or overwrite
  an own property; that is what JavaScript does for every name but \<open>__proto__\<close>, and
  no run assigns to a name of \<open>Object.prototype\<close> (\<open>inFlightInv\<close> below).
\<close>

definition startOperation :: "string \<Rightarrow> asset \<Rightarrow> registry \<Rightarrow> nat \<times> registry" where
  "startOperation name a s =
     (let p = length (operations s);
          s1 = s\<lparr>operations := operations s @
                   [\<lparr>op_name = name, op_asset = a, op_stage = AwaitDownload\<rparr>]\<rparr>;
          s2 = loadSingleFontAsync p a s1
      in (p, s2\<lparr>loadPromises := (loadPromises s2)(name \<mapsto> p)\<rparr>))"

text \<open>\<open>loadAsync\<close> for a single name (lines 98-124), up to its first \<open>await\<close>.\<close>

definition loadAsyncName ::
  "string \<Rightarrow> fontSource option \<Rightarrow> registry \<Rightarrow> promise \<times> registry" where
  "loadAsyncName name src s =
     (if truthyProperty (\<lambda>b. b) (loaded s) name then (Resolved Fulfilled, s)
      else
        (case getProperty (loadPromises s) name of
           Own p \<Rightarrow> (Follows p, s)
         | Inherited \<Rightarrow> (Resolved Fulfilled, s)
         | Absent \<Rightarrow>
             (case invariantSource src (noSourceMessage name) of
                Inl e \<Rightarrow> (Resolved (Rejected e), s)
              | Inr fs \<Rightarrow>
                  (case getAssetForSource fs of
                     Inl e \<Rightarrow> (Resolved (Rejected e), s)
                   | Inr a \<Rightarrow>
                       (let (p, s1) = startOperation name a s in (Follows p, s1))))))"

text \<open>
  \<open>loadAsync\<close> for a font map (lines 91-96): \<open>Object.keys\<close> gives the names in order, each
  entry is started in turn, and \<open>Promise.all\<close> waits for the promises. The map is the
  list of its entries in the order of \<open>Object.keys\<close>.
\<close>

type_synonym fontMap = "(string \<times> fontSource option) list"

fun loadEntries :: "fontMap \<Rightarrow> registry \<Rightarrow> promise list \<times> registry" where
  "loadEntries [] s = ([], s)"
| "loadEntries ((name, src) # rest) s =
     (let (pr, s1) = loadAsyncName name src s;
          (prs, s2) = loadEntries rest s1
      in (pr # prs, s2))"

definition loadAsyncMap :: "fontMap \<Rightarrow> registry \<Rightarrow> promise \<times> registry" where
  "loadAsyncMap fontMap s =
     (let (prs, s1) = loadEntries fontMap s in newPromiseAll prs s1)"

text \<open>
  \<open>loadAsync\<close> for an array of font maps (lines 85-90): the deprecation warning, then
  \<open>loadAsync\<close> on each element in turn (\<open>Array.prototype.map\<close> passes the index as second
  argument, which the font-map branch ignores), and \<open>Promise.all\<close> over the promises.
\<close>

fun loadMaps :: "fontMap list \<Rightarrow> registry \<Rightarrow> promise list \<times> registry" where
  "loadMaps [] s = ([], s)"
| "loadMaps (fontMap # rest) s =
     (let (pr, s1) = loadAsyncMap fontMap s;
          (prs, s2) = loadMaps rest s1
      in (pr # prs, s2))"

definition loadAsyncArray :: "fontMap list \<Rightarrow> registry \<Rightarrow> promise \<times> registry" where
  "loadAsyncArray fontMaps s =
     (let s0 = s\<lparr>console := console s @ [ArrayDeprecated]\<rparr>;
          (prs, s1) = loadMaps fontMaps s0
      in newPromiseAll prs s1)"

datatype nameOrMap = Name string | FontMap fontMap | FontMaps "fontMap list"

text \<open>
  \<open>loadAsync\<close> (lines 81-125): the three forms of its first argument. The source's
  recursive calls are calls of the branch for the next form.
\<close>

definition loadAsync ::
  "nameOrMap \<Rightarrow> fontSource option \<Rightarrow> registry \<Rightarrow> promise \<times> registry" where
  "loadAsync nm src s =
     (case nm of
        FontMaps fontMaps \<Rightarrow> loadAsyncArray fontMaps s
      | FontMap fontMap \<Rightarrow> loadAsyncMap fontMap s
      | Name name \<Rightarrow> loadAsyncName name src s)"

subsection \<open>Runs\<close>

text \<open>
  What can happen next: application code calls \<open>loadAsync\<close> or \<open>processFontFamily\<close>, the
  download promise of an operation waiting for it settles, or the native loader's
  promise of an operation waiting for it settles. A settlement is possible only for an
  operation that waits for it: the collaborators return promises (they do not throw
  when called) and a promise settles once. Each event is one step: JavaScript runs a
  call up to its first \<open>await\<close>, and a resumed function up to its next \<open>await\<close> or its
  end, without interruption. \<open>isLoaded\<close> and \<open>isLoading\<close> change nothing and are not
  events.
\<close>

datatype event =
    CallLoadAsync nameOrMap "fontSource option"
  | CallProcessFontFamily maybeString
  | DownloadSettles nat "error + assetFields"
  | NativeSettles nat "error option"

definition atStage :: "registry \<Rightarrow> nat \<Rightarrow> stage \<Rightarrow> bool" where
  "atStage s p st = (p < length (operations s) \<and> op_stage (operations s ! p) = st)"

definition step :: "environment \<Rightarrow> event \<Rightarrow> registry \<Rightarrow> registry option" where
  "step env e s =
     (case e of
        CallLoadAsync nm src \<Rightarrow> Some (snd (loadAsync nm src s))
      | CallProcessFontFamily name \<Rightarrow> Some (snd (processFontFamily env name s))
      | DownloadSettles p r \<Rightarrow>
          if atStage s p AwaitDownload then Some (downloadSettled env p r s) else None
      | NativeSettles p r \<Rightarrow>
          if atStage s p AwaitNative then Some (nativeSettled p r s) else None)"

fun run :: "environment \<Rightarrow> event list \<Rightarrow> registry \<Rightarrow> registry option" where
  "run env [] s = Some s"
| "run env (e # es) s = (case step env e s of None \<Rightarrow> None | Some s1 \<Rightarrow> run env es s1)"

definition reachable :: "environment \<Rightarrow> registry \<Rightarrow> bool" where
  "reachable env s = (\<exists>es. run env es initial = Some s)"

subsection \<open>Notions used in the properties\<close>

text \<open>The calls operation \<open>p\<close> has made to the collaborators, oldest first.\<close>

definition callsOf :: "registry \<Rightarrow> nat \<Rightarrow> collaboratorCall list" where
  "callsOf s p = map snd (filter (\<lambda>c. fst c = p) (collaboratorCalls s))"

fun isDownloadCall :: "collaboratorCall \<Rightarrow> bool" where
  "isDownloadCall (DownloadAsync a) = True"
| "isDownloadCall (NativeLoadAsync n u) = False"

definition downloadsBy :: "registry \<Rightarrow> nat \<Rightarrow> nat" where
  "downloadsBy s p = length (filter isDownloadCall (callsOf s p))"

definition nativeLoadsBy :: "registry \<Rightarrow> nat \<Rightarrow> nat" where
  "nativeLoadsBy s p = length (filter (\<lambda>c. \<not> isDownloadCall c) (callsOf s p))"

definition pending :: "registry \<Rightarrow> nat \<Rightarrow> bool" where
  "pending s p =
     (p < length (operations s) \<and> stageOutcome (op_stage (operations s ! p)) = None)"

text \<open>
  The invariant of the two objects: an entry of \<open>loadPromises\<close> is a pending operation
  for that name and every pending operation is the entry of its name; no own property
  is named like a property of \<open>Object.prototype\<close>; an own property of \<open>loaded\<close> is
  \<open>true\<close> and its name has no entry in \<open>loadPromises\<close>; the name of a fulfilled
  operation is in \<open>loaded\<close>.
\<close>

definition inFlightInv :: "registry \<Rightarrow> bool" where
  "inFlightInv s =
     ((\<forall>n p. loadPromises s n = Some p \<longrightarrow> pending s p \<and> op_name (operations s ! p) = n)
    \<and> (\<forall>p. pending s p \<longrightarrow> loadPromises s (op_name (operations s ! p)) = Some p)
    \<and> (\<forall>n. n \<in> set objectPrototypeKeys \<longrightarrow> loaded s n = None \<and> loadPromises s n = None)
    \<and> (\<forall>n. loaded s n \<noteq> None \<longrightarrow> loaded s n = Some True \<and> loadPromises s n = None)
    \<and> (\<forall>p. p < length (operations s) \<and> op_stage (operations s ! p) = Settled Fulfilled
           \<longrightarrow> loaded s (op_name (operations s ! p)) = Some True))"

text \<open>
  The invariant of the collaborator calls: an operation has requested its download
  once, when it was created, and has called the native loader at most once, after the
  download and under the session's name for its font.
\<close>

definition expectedCalls :: "environment \<Rightarrow> operation \<Rightarrow> collaboratorCall list \<Rightarrow> bool" where
  "expectedCalls env opn cs =
     (let d = DownloadAsync (op_asset opn);
          native = (\<exists>u. cs = [d, NativeLoadAsync (getNativeFontName env (op_name opn)) u])
      in case op_stage opn of
           AwaitDownload \<Rightarrow> cs = [d]
         | AwaitNative \<Rightarrow> native
         | Settled Fulfilled \<Rightarrow> native
         | Settled (Rejected e) \<Rightarrow> cs = [d] \<or> native)"

definition callsInv :: "environment \<Rightarrow> registry \<Rightarrow> bool" where
  "callsInv env s =
     (\<forall>p. if p < length (operations s)
          then expectedCalls env (operations s ! p) (callsOf s p)
          else callsOf s p = [])"

text \<open>
  The invariant of the \<open>Promise.all\<close>s: the members of the one numbered \<open>k\<close> are
  promises of single-name calls or \<open>Promise.all\<close>s created before it, and its state is
  what the members' states decide.
\<close>

fun memberOK :: "registry \<Rightarrow> nat \<Rightarrow> promise \<Rightarrow> bool" where
  "memberOK s k (Resolved r) = True"
| "memberOK s k (Follows p) = (p < length (operations s))"
| "memberOK s k (All j) = (j < k)"

definition aggregateInv :: "registry \<Rightarrow> nat \<Rightarrow> aggregate \<Rightarrow> bool" where
  "aggregateInv s k a =
     ((\<forall>m \<in> set (members a). memberOK s k m)
    \<and> (agg_state a = None \<longrightarrow> promiseAll (map (outcome s) (members a)) = None)
    \<and> (agg_state a = Some Fulfilled \<longrightarrow> (\<forall>m \<in> set (members a). outcome s m = Some Fulfilled))
    \<and> (\<forall>e. agg_state a = Some (Rejected e)
           \<longrightarrow> (\<exists>m \<in> set (members a). outcome s m = Some (Rejected e))))"

definition aggregatesInv :: "registry \<Rightarrow> bool" where
  "aggregatesInv s = (\<forall>k < length (aggregates s). aggregateInv s k (aggregates s ! k))"

text \<open>
  A name for which \<open>loadAsync\<close> passes both of its checks (lines 100 and 104):
  \<open>loaded[name]\<close> and \<open>loadPromises[name]\<close> are falsy.
\<close>

definition freshName :: "registry \<Rightarrow> string \<Rightarrow> bool" where
  "freshName s name = (\<not> truthyProperty (\<lambda>b. b) (loaded s) name \<and> getProperty (loadPromises s) name = Absent)"

text \<open>
  The state after operation \<open>p\<close> has seen its download succeed: the native loader
  has been called and the operation waits for it.
\<close>

definition advanced :: "environment \<Rightarrow> nat \<Rightarrow> assetFields \<Rightarrow> registry \<Rightarrow> registry" where
  "advanced env p a s =
     s\<lparr>collaboratorCalls := collaboratorCalls s @
               [(p, NativeLoadAsync (getNativeFontName env (op_name (operations s ! p))) (localUri a))],
       operations := (operations s)[p := (operations s ! p)\<lparr>op_stage := AwaitNative\<rparr>]\<rparr>"

text \<open>
  A promise that a call of \<open>loadAsync\<close> for \<open>name\<close> may have returned: settled at
  once (fulfilled only when the name is in \<open>loaded\<close>), or following an operation for
  that name.
\<close>

fun promiseOf :: "registry \<Rightarrow> string \<Rightarrow> promise \<Rightarrow> bool" where
  "promiseOf s name (Resolved r) = (r = Fulfilled \<longrightarrow> loaded s name = Some True)"
| "promiseOf s name (Follows p) = (p < length (operations s) \<and> op_name (operations s ! p) = name)"
| "promiseOf s name (All k) = False"

definition registryInv :: "environment \<Rightarrow> registry \<Rightarrow> bool" where
  "registryInv env s = (inFlightInv s \<and> callsInv env s \<and> aggregatesInv s)"

subsection \<open>An example run\<close>

text \<open>
  An environment with one system font and the session identifier \<open>abc\<close>, and the
  states of a load of the font \<open>Foo\<close> from a bundled module: requested, downloaded
  and waiting for the native loader, loaded; and the state after a download that left
  \<open>downloaded\<close> false.
\<close>

definition exampleEnv :: environment where
  "exampleEnv = \<lparr>systemFonts = [''Helvetica''], sessionId = ''abc'', DEV = True\<rparr>"

definition fooFile :: assetFields where
  "fooFile = \<lparr>downloaded = True, localUri = Some ''file:///Foo.ttf''\<rparr>"

definition noFile :: assetFields where
  "noFile = \<lparr>downloaded = False, localUri = None\<rparr>"

definition fooLoading :: registry where
  "fooLoading = snd (loadAsync (Name ''Foo'') (Some (Module 1)) initial)"

definition fooRegistering :: registry where
  "fooRegistering = downloadSettled exampleEnv 0 (Inr fooFile) fooLoading"

definition fooLoaded :: registry where
  "fooLoaded = nativeSettled 0 None fooRegistering"

definition fooFailed :: registry where
  "fooFailed = downloadSettled exampleEnv 0 (Inr noFile) fooLoading"

text \<open>
  A second run: the font map \<open>{A: 1, B: 2}\<close> is requested; the download of \<open>B\<close>
  leaves \<open>downloaded\<close> false; then \<open>A\<close> is downloaded and registered. And the state
  after a call with the font map \<open>{A: 1, B: 'http://x', C: undefined}\<close>.
\<close>

definition abLoading :: registry where
  "abLoading = snd (loadAsync (FontMap [(''A'', Some (Module 1)), (''B'', Some (Module 2))]) None initial)"

definition abcLoading :: registry where
  "abcLoading = snd (loadAsync (FontMap [(''A'', Some (Module 1)), (''B'', Some (Uri ''http://x'')),
     (''C'', None)]) None initial)"

definition abFailedB :: registry where
  "abFailedB = downloadSettled exampleEnv 1 (Inr noFile) abLoading"

definition abRegisteringA :: registry where
  "abRegisteringA = downloadSettled exampleEnv 0 (Inr fooFile) abFailedB"

definition abDone :: registry where
  "abDone = nativeSettled 0 None abRegisteringA"

section \<open>Properties\<close>

lemma str_includes_sublist: "str_includes xs sub = sublist sub xs"
  by (induction xs) (auto simp: sublist_Cons_right)

subsection \<open>The invariant of the in-flight map\<close>

lemma pending_iff:
  "pending s p \<longleftrightarrow> p < length (operations s) \<and> (op_stage (operations s ! p) = AwaitDownload \<or> op_stage (operations s ! p) = AwaitNative)"
  by (cases "op_stage (operations s ! p)") (simp_all add: pending_def stageOutcome_def)

lemma inFlightInv_initial: "inFlightInv initial"
  by (simp add: inFlightInv_def initial_def pending_def)

lemma startOperation_fields:
  "startOperation name a s = (length (operations s),
     s\<lparr>operations := operations s @ [\<lparr>op_name = name, op_asset = a, op_stage = AwaitDownload\<rparr>],
       collaboratorCalls := collaboratorCalls s @ [(length (operations s), DownloadAsync a)],
       loadPromises := (loadPromises s)(name \<mapsto> length (operations s))\<rparr>)"
  by (simp add: startOperation_def loadSingleFontAsync_def Let_def)

lemma freshName_iff:
  "freshName s name \<longleftrightarrow> loaded s name \<noteq> Some True \<and> loadPromises s name = None \<and> name \<notin> set objectPrototypeKeys"
  by (cases "loaded s name"; cases "loadPromises s name")
     (auto simp: freshName_def truthyProperty_def getProperty_def)

text \<open>A call for a single name either leaves the state as it is or starts an operation.\<close>

lemma loadAsyncName_cases:
  "snd (loadAsyncName name src s) = s \<or>
   (\<exists>a. freshName s name \<and>
        loadAsyncName name src s = (Follows (length (operations s)), snd (startOperation name a s)))"
proof (cases "truthyProperty (\<lambda>b. b) (loaded s) name")
  case True
  then show ?thesis by (simp add: loadAsyncName_def)
next
  case notLoaded: False
  show ?thesis
  proof (cases "getProperty (loadPromises s) name")
    case (Own p)
    with notLoaded show ?thesis by (simp add: loadAsyncName_def)
  next
    case Inherited
    with notLoaded show ?thesis by (simp add: loadAsyncName_def)
  next
    case Absent
    show ?thesis
    proof (cases "invariantSource src (noSourceMessage name)")
      case (Inl e)
      with notLoaded Absent show ?thesis by (simp add: loadAsyncName_def)
    next
      case (Inr fs)
      show ?thesis
      proof (cases "getAssetForSource fs")
        case (Inl e)
        with notLoaded Absent Inr show ?thesis by (simp add: loadAsyncName_def)
      next
        case asset: (Inr a)
        with notLoaded Absent Inr show ?thesis
          by (auto simp: loadAsyncName_def freshName_def startOperation_fields)
      qed
    qed
  qed
qed

lemma inFlightInv_startOperation:
  assumes "inFlightInv s" "freshName s name"
  shows "inFlightInv (snd (startOperation name a s))"
proof -
  from assms(2) have f: "loaded s name \<noteq> Some True" "loadPromises s name = None" "name \<notin> set objectPrototypeKeys"
    by (simp_all add: freshName_iff)
  from assms(1) have
    i1: "\<And>n p. loadPromises s n = Some p \<Longrightarrow> pending s p \<and> op_name (operations s ! p) = n" and
    i2: "\<And>p. pending s p \<Longrightarrow> loadPromises s (op_name (operations s ! p)) = Some p" and
    i3: "\<And>n. n \<in> set objectPrototypeKeys \<Longrightarrow> loaded s n = None \<and> loadPromises s n = None" and
    i4: "\<And>n. loaded s n \<noteq> None \<Longrightarrow> loaded s n = Some True \<and> loadPromises s n = None" and
    i5: "\<And>p. p < length (operations s) \<Longrightarrow> op_stage (operations s ! p) = Settled Fulfilled
           \<Longrightarrow> loaded s (op_name (operations s ! p)) = Some True"
    unfolding inFlightInv_def by blast+
  let ?s = "snd (startOperation name a s)"
  have pend: "\<And>p. pending ?s p \<longleftrightarrow> pending s p \<or> p = length (operations s)"
    by (auto simp: startOperation_fields pending_def nth_append stageOutcome_def)
  have nm: "\<And>p. p < length (operations s) \<Longrightarrow> operations ?s ! p = operations s ! p"
    by (simp add: startOperation_fields nth_append)
  have new: "operations ?s ! length (operations s) = \<lparr>op_name = name, op_asset = a, op_stage = AwaitDownload\<rparr>"
    by (simp add: startOperation_fields)
  have lp: "\<And>n. loadPromises ?s n = (if n = name then Some (length (operations s)) else loadPromises s n)"
    by (simp add: startOperation_fields)
  have ld: "loaded ?s = loaded s" by (simp add: startOperation_fields)
  have len: "length (operations ?s) = Suc (length (operations s))" by (simp add: startOperation_fields)
  have pl: "\<And>p. pending s p \<Longrightarrow> p < length (operations s)" by (simp add: pending_def)
  have c1: "\<forall>n p. loadPromises ?s n = Some p \<longrightarrow> pending ?s p \<and> op_name (operations ?s ! p) = n"
    using i1 pl by (auto simp: lp pend nm new split: if_splits)
  have c2: "\<forall>p. pending ?s p \<longrightarrow> loadPromises ?s (op_name (operations ?s ! p)) = Some p"
  proof (intro allI impI)
    fix p assume "pending ?s p"
    then consider "pending s p" | "p = length (operations s)" by (auto simp: pend)
    then show "loadPromises ?s (op_name (operations ?s ! p)) = Some p"
    proof cases
      case 1
      then have "loadPromises s (op_name (operations s ! p)) = Some p" by (rule i2)
      with f(2) have "op_name (operations s ! p) \<noteq> name" by auto
      with 1 i2 pl show ?thesis by (simp add: lp nm)
    next
      case 2 then show ?thesis by (simp add: lp new)
    qed
  qed
  have c3: "\<forall>n. n \<in> set objectPrototypeKeys \<longrightarrow> loaded ?s n = None \<and> loadPromises ?s n = None"
    using i3 f(3) by (auto simp: lp ld)
  have c4: "\<forall>n. loaded ?s n \<noteq> None \<longrightarrow> loaded ?s n = Some True \<and> loadPromises ?s n = None"
  proof (intro allI impI)
    fix n assume n: "loaded ?s n \<noteq> None"
    then have "loaded s n \<noteq> None" by (simp add: ld)
    then have l: "loaded s n = Some True" "loadPromises s n = None" using i4 by blast+
    with f(1) have "n \<noteq> name" by auto
    with l show "loaded ?s n = Some True \<and> loadPromises ?s n = None" by (simp add: lp ld)
  qed
  have c5: "\<forall>p. p < length (operations ?s) \<and> op_stage (operations ?s ! p) = Settled Fulfilled
           \<longrightarrow> loaded ?s (op_name (operations ?s ! p)) = Some True"
  proof (intro allI impI, elim conjE)
    fix p assume p: "p < length (operations ?s)" and st: "op_stage (operations ?s ! p) = Settled Fulfilled"
    from p len have "p < length (operations s) \<or> p = length (operations s)" by auto
    then show "loaded ?s (op_name (operations ?s ! p)) = Some True"
    proof
      assume "p < length (operations s)"
      with st i5 show ?thesis by (simp add: nm ld)
    next
      assume "p = length (operations s)"
      with st show ?thesis by (simp add: new)
    qed
  qed
  show ?thesis unfolding inFlightInv_def using c1 c2 c3 c4 c5 by blast
qed

lemma inFlightInv_loadAsyncName:
  assumes "inFlightInv s"
  shows "inFlightInv (snd (loadAsyncName name src s))"
  using loadAsyncName_cases [of name src s] assms inFlightInv_startOperation by auto


subsection \<open>Fields after each transition\<close>

lemma settleOperation_fields [simp]:
  "loaded (settleOperation p r s) = loaded s"
  "loadPromises (settleOperation p r s) = (loadPromises s)(op_name (operations s ! p) := None)"
  "operations (settleOperation p r s) = (operations s)[p := (operations s ! p)\<lparr>op_stage := Settled r\<rparr>]"
  "collaboratorCalls (settleOperation p r s) = collaboratorCalls s"
  "console (settleOperation p r s) = console s"
  by (simp_all add: settleOperation_def Let_def)

lemma processFontFamily_fields [simp]:
  "loaded (snd (processFontFamily env name s)) = loaded s"
  "loadPromises (snd (processFontFamily env name s)) = loadPromises s"
  "operations (snd (processFontFamily env name s)) = operations s"
  "aggregates (snd (processFontFamily env name s)) = aggregates s"
  "collaboratorCalls (snd (processFontFamily env name s)) = collaboratorCalls s"
  by (simp_all add: processFontFamily_def split: maybeString.splits sum.splits bool.splits)

lemma inFlightInv_cong:
  "loaded s' = loaded s \<Longrightarrow> loadPromises s' = loadPromises s \<Longrightarrow> operations s' = operations s
   \<Longrightarrow> inFlightInv s' = inFlightInv s"
  by (simp add: inFlightInv_def pending_def)

lemma inFlightInvD:
  assumes "inFlightInv s"
  shows "loadPromises s n = Some p \<Longrightarrow> pending s p"
    and "loadPromises s n = Some p \<Longrightarrow> op_name (operations s ! p) = n"
    and "pending s p \<Longrightarrow> loadPromises s (op_name (operations s ! p)) = Some p"
    and "n \<in> set objectPrototypeKeys \<Longrightarrow> loaded s n = None"
    and "n \<in> set objectPrototypeKeys \<Longrightarrow> loadPromises s n = None"
    and "loaded s n \<noteq> None \<Longrightarrow> loaded s n = Some True"
    and "loaded s n \<noteq> None \<Longrightarrow> loadPromises s n = None"
    and "p < length (operations s) \<Longrightarrow> op_stage (operations s ! p) = Settled Fulfilled
           \<Longrightarrow> loaded s (op_name (operations s ! p)) = Some True"
  using assms unfolding inFlightInv_def by blast+

text \<open>The operation moves from the download to the native loader: nothing else changes.\<close>

lemma inFlightInv_advance:
  assumes "inFlightInv s" "atStage s p AwaitDownload"
    and "loaded s' = loaded s" "loadPromises s' = loadPromises s"
    and "operations s' = (operations s)[p := (operations s ! p)\<lparr>op_stage := AwaitNative\<rparr>]"
  shows "inFlightInv s'"
proof -
  from assms(2) have p: "p < length (operations s)" "op_stage (operations s ! p) = AwaitDownload"
    by (simp_all add: atStage_def)
  have nm: "\<And>q. q < length (operations s) \<Longrightarrow> op_name (operations s' ! q) = op_name (operations s ! q)"
  proof -
    fix q assume "q < length (operations s)"
    then show "op_name (operations s' ! q) = op_name (operations s ! q)"
      by (cases "q = p") (simp_all add: assms(5))
  qed
  have pend: "\<And>q. pending s' q = pending s q"
  proof -
    fix q show "pending s' q = pending s q"
      using p by (cases "q = p") (auto simp: pending_def assms(5) stageOutcome_def)
  qed
  have pl: "\<And>q. pending s q \<Longrightarrow> q < length (operations s)" by (simp add: pending_def)
  have ful: "\<And>q. q < length (operations s) \<Longrightarrow> op_stage (operations s' ! q) = Settled Fulfilled
      \<Longrightarrow> op_stage (operations s ! q) = Settled Fulfilled"
  proof -
    fix q assume "q < length (operations s)" "op_stage (operations s' ! q) = Settled Fulfilled"
    then show "op_stage (operations s ! q) = Settled Fulfilled"
      by (cases "q = p") (simp_all add: assms(5))
  qed
  note d = inFlightInvD [OF assms(1)]
  show ?thesis
    unfolding inFlightInv_def
  proof (intro conjI allI impI)
    fix n q assume "loadPromises s' n = Some q"
    then have l: "loadPromises s n = Some q" by (simp add: assms(4))
    then show "pending s' q" using d(1) pend by blast
    from l have "pending s q" using d(1) by blast
    with l show "op_name (operations s' ! q) = n" using d(2) nm pl by auto
  next
    fix q assume "pending s' q"
    then have "pending s q" by (simp add: pend)
    then show "loadPromises s' (op_name (operations s' ! q)) = Some q"
      using d(3) nm pl by (simp add: assms(4))
  next
    fix n assume "n \<in> set objectPrototypeKeys"
    then show "loaded s' n = None" "loadPromises s' n = None" using d(4,5) by (simp_all add: assms(3,4))
  next
    fix n assume "loaded s' n \<noteq> None"
    then show "loaded s' n = Some True" "loadPromises s' n = None" using d(6,7) by (simp_all add: assms(3,4))
  next
    fix q assume "q < length (operations s') \<and> op_stage (operations s' ! q) = Settled Fulfilled"
    then have "q < length (operations s)" "op_stage (operations s ! q) = Settled Fulfilled"
      using ful by (simp_all add: assms(5))
    then show "loaded s' (op_name (operations s' ! q)) = Some True"
      using d(8) nm by (simp add: assms(3))
  qed
qed

text \<open>The operation settles: its entry goes, and on success its name is in \<open>loaded\<close>.\<close>

lemma inFlightInv_settle:
  assumes "inFlightInv s" "pending s p"
    and "loaded s' = (if r = Fulfilled then (loaded s)(op_name (operations s ! p) \<mapsto> True) else loaded s)"
    and "loadPromises s' = (loadPromises s)(op_name (operations s ! p) := None)"
    and "operations s' = (operations s)[p := (operations s ! p)\<lparr>op_stage := Settled r\<rparr>]"
  shows "inFlightInv s'"
proof -
  let ?name = "op_name (operations s ! p)"
  note d = inFlightInvD [OF assms(1)]
  from assms(2) have p: "p < length (operations s)" by (simp add: pending_def)
  from assms(2) have lp: "loadPromises s ?name = Some p" by (rule d(3))
  then have notproto: "?name \<notin> set objectPrototypeKeys" using d(5) by fastforce
  from lp have notloaded: "loaded s ?name = None" using d(7) by fastforce
  have nm: "\<And>q. q < length (operations s) \<Longrightarrow> op_name (operations s' ! q) = op_name (operations s ! q)"
  proof -
    fix q assume "q < length (operations s)"
    then show "op_name (operations s' ! q) = op_name (operations s ! q)"
      by (cases "q = p") (simp_all add: assms(5))
  qed
  have pend: "\<And>q. pending s' q \<longleftrightarrow> pending s q \<and> q \<noteq> p"
  proof -
    fix q show "pending s' q \<longleftrightarrow> pending s q \<and> q \<noteq> p"
      by (cases "q = p") (auto simp: pending_def assms(5) stageOutcome_def)
  qed
  have pl: "\<And>q. pending s q \<Longrightarrow> q < length (operations s)" by (simp add: pending_def)
  have uniq: "\<And>q. pending s q \<Longrightarrow> op_name (operations s ! q) = ?name \<Longrightarrow> q = p"
    using d(3) lp by fastforce
  show ?thesis
    unfolding inFlightInv_def
  proof (intro conjI allI impI)
    fix n q assume a: "loadPromises s' n = Some q"
    then have n: "n \<noteq> ?name" and l: "loadPromises s n = Some q"
      by (auto simp: assms(4) split: if_splits)
    from l have pq: "pending s q" and nq: "op_name (operations s ! q) = n" using d(1,2) by blast+
    with n have "q \<noteq> p" by auto
    with pq show "pending s' q" by (simp add: pend)
    from pq nq show "op_name (operations s' ! q) = n" using nm pl by auto
  next
    fix q assume "pending s' q"
    then have pq: "pending s q" and qp: "q \<noteq> p" by (simp_all add: pend)
    then have "op_name (operations s ! q) \<noteq> ?name" using uniq by blast
    with pq show "loadPromises s' (op_name (operations s' ! q)) = Some q"
      using d(3) nm pl by (simp add: assms(4))
  next
    fix n assume n: "n \<in> set objectPrototypeKeys"
    with notproto have "n \<noteq> ?name" by auto
    with n show "loaded s' n = None" using d(4) by (simp add: assms(3))
    from n show "loadPromises s' n = None" using d(5) by (simp add: assms(4))
  next
    fix n assume a: "loaded s' n \<noteq> None"
    show "loaded s' n = Some True"
    proof (cases "n = ?name \<and> r = Fulfilled")
      case True then show ?thesis by (simp add: assms(3))
    next
      case False
      with a have "loaded s n \<noteq> None" by (auto simp: assms(3) split: if_splits)
      then have "loaded s n = Some True" by (rule d(6))
      with False show ?thesis by (auto simp: assms(3))
    qed
    show "loadPromises s' n = None"
    proof (cases "n = ?name")
      case True then show ?thesis by (simp add: assms(4))
    next
      case False
      with a have "loaded s n \<noteq> None" by (auto simp: assms(3) split: if_splits)
      then have "loadPromises s n = None" by (rule d(7))
      then show ?thesis by (simp add: assms(4))
    qed
  next
    fix q assume a: "q < length (operations s') \<and> op_stage (operations s' ! q) = Settled Fulfilled"
    then have q: "q < length (operations s)" by (simp add: assms(5))
    show "loaded s' (op_name (operations s' ! q)) = Some True"
    proof (cases "q = p")
      case True
      with a p have "r = Fulfilled" by (simp add: assms(5))
      with True q show ?thesis by (simp add: assms(3) nm)
    next
      case False
      with a q have "op_stage (operations s ! q) = Settled Fulfilled" by (simp add: assms(5))
      then have "loaded s (op_name (operations s ! q)) = Some True" using d(8) q by blast
      then show ?thesis using q by (simp add: assms(3) nm)
    qed
  qed
qed

lemma atStage_pending:
  "atStage s p AwaitDownload \<Longrightarrow> pending s p" "atStage s p AwaitNative \<Longrightarrow> pending s p"
  by (simp_all add: atStage_def pending_def stageOutcome_def)

lemma downloadSettled_cases:
  "(\<exists>e. downloadSettled env p r s = settleOperation p (Rejected e) s \<and>
        (r = Inl e \<or> (\<exists>a. r = Inr a \<and> \<not> downloaded a \<and>
           e = Error (downloadFailedMessage (op_name (operations s ! p)))))) \<or>
   (\<exists>a. r = Inr a \<and> downloaded a \<and>
        downloadSettled env p r s =
          s\<lparr>collaboratorCalls := collaboratorCalls s @
               [(p, NativeLoadAsync (getNativeFontName env (op_name (operations s ! p))) (localUri a))],
            operations := (operations s)[p := (operations s ! p)\<lparr>op_stage := AwaitNative\<rparr>]\<rparr>)"
  by (cases r) (auto simp: downloadSettled_def loadSingleFontAsync_resumed_def)

lemma downloadSettled_shape:
  "(\<exists>e. downloadSettled env p r s = settleOperation p (Rejected e) s) \<or>
   (\<exists>a. downloadSettled env p r s = advanced env p a s)"
  using downloadSettled_cases [of env p r s] unfolding advanced_def by blast

lemma inFlightInv_downloadSettled:
  assumes "inFlightInv s" "atStage s p AwaitDownload"
  shows "inFlightInv (downloadSettled env p r s)"
  using downloadSettled_shape [of env p r s]
proof (elim disjE exE)
  fix e assume "downloadSettled env p r s = settleOperation p (Rejected e) s"
  then show ?thesis
    using inFlightInv_settle [OF assms(1) atStage_pending(1) [OF assms(2)], of _ "Rejected e"] by simp
next
  fix a assume "downloadSettled env p r s = advanced env p a s"
  then show ?thesis
    using inFlightInv_advance [OF assms, of "advanced env p a s"] by (simp add: advanced_def)
qed

lemma inFlightInv_nativeSettled:
  assumes "inFlightInv s" "atStage s p AwaitNative"
  shows "inFlightInv (nativeSettled p r s)"
proof (cases r)
  case None
  have pd: "pending s p" using assms(2) by (rule atStage_pending(2))
  show ?thesis
    using inFlightInv_settle [OF assms(1) pd, of "nativeSettled p None s" Fulfilled] None
    by (simp add: nativeSettled_def)
next
  case (Some e)
  have pd: "pending s p" using assms(2) by (rule atStage_pending(2))
  show ?thesis
    using inFlightInv_settle [OF assms(1) pd, of "nativeSettled p (Some e) s" "Rejected e"] Some
    by (simp add: nativeSettled_def)
qed


subsection \<open>Collaborator calls\<close>

lemma callsOf_append:
  "collaboratorCalls s' = collaboratorCalls s @ [(q, c)]
   \<Longrightarrow> callsOf s' p = callsOf s p @ (if q = p then [c] else [])"
  by (simp add: callsOf_def)

lemma callsOf_same:
  "collaboratorCalls s' = collaboratorCalls s \<Longrightarrow> callsOf s' p = callsOf s p"
  by (simp add: callsOf_def)

lemma callsInvD:
  assumes "callsInv env s"
  shows "p < length (operations s) \<Longrightarrow> expectedCalls env (operations s ! p) (callsOf s p)"
    and "\<not> p < length (operations s) \<Longrightarrow> callsOf s p = []"
  using assms unfolding callsInv_def by (metis)+

lemma callsInvI:
  assumes "\<And>p. p < length (operations s) \<Longrightarrow> expectedCalls env (operations s ! p) (callsOf s p)"
    and "\<And>p. \<not> p < length (operations s) \<Longrightarrow> callsOf s p = []"
  shows "callsInv env s"
  using assms unfolding callsInv_def by simp

lemma callsInv_initial: "callsInv env initial"
  by (simp add: callsInv_def initial_def callsOf_def)

lemma callsInv_cong:
  "collaboratorCalls s' = collaboratorCalls s \<Longrightarrow> operations s' = operations s
   \<Longrightarrow> callsInv env s' = callsInv env s"
  by (simp add: callsInv_def callsOf_def)

lemma callsInv_startOperation:
  assumes "callsInv env s"
  shows "callsInv env (snd (startOperation name a s))"
proof (rule callsInvI)
  let ?s = "snd (startOperation name a s)"
  have cc: "collaboratorCalls ?s = collaboratorCalls s @ [(length (operations s), DownloadAsync a)]"
    by (simp add: startOperation_fields)
  have ops: "operations ?s = operations s @ [\<lparr>op_name = name, op_asset = a, op_stage = AwaitDownload\<rparr>]"
    by (simp add: startOperation_fields)
  note d = callsInvD [OF assms]
  fix p
  { assume "p < length (operations ?s)"
    then have "p < length (operations s) \<or> p = length (operations s)" by (auto simp: ops)
    then consider "p < length (operations s)" | "p = length (operations s)" by blast
    then show "expectedCalls env (operations ?s ! p) (callsOf ?s p)"
    proof cases
      case 1
      then show ?thesis using d(1) [of p] by (simp add: callsOf_append [OF cc] ops nth_append)
    next
      case 2
      then have "callsOf s p = []" using d(2) [of p] by simp
      with 2 show ?thesis by (simp add: callsOf_append [OF cc] ops expectedCalls_def)
    qed }
  { assume "\<not> p < length (operations ?s)"
    then have "\<not> p < length (operations s)" "p \<noteq> length (operations s)" by (auto simp: ops)
    then show "callsOf ?s p = []" using d(2) [of p] by (simp add: callsOf_append [OF cc]) }
qed

lemma callsInv_advance:
  assumes "callsInv env s" "atStage s p AwaitDownload"
  shows "callsInv env (advanced env p a s)"
proof (rule callsInvI)
  let ?s = "advanced env p a s"
  let ?c = "NativeLoadAsync (getNativeFontName env (op_name (operations s ! p))) (localUri a)"
  have cc: "collaboratorCalls ?s = collaboratorCalls s @ [(p, ?c)]"
    by (simp add: advanced_def)
  have ops: "operations ?s = (operations s)[p := (operations s ! p)\<lparr>op_stage := AwaitNative\<rparr>]"
    by (simp add: advanced_def)
  from assms(2) have p: "p < length (operations s)" "op_stage (operations s ! p) = AwaitDownload"
    by (simp_all add: atStage_def)
  note d = callsInvD [OF assms(1)]
  fix q
  { assume "q < length (operations ?s)"
    then have q: "q < length (operations s)" by (simp add: ops)
    show "expectedCalls env (operations ?s ! q) (callsOf ?s q)"
    proof (cases "q = p")
      case True
      from d(1) [OF p(1)] p(2) have "callsOf s p = [DownloadAsync (op_asset (operations s ! p))]"
        by (simp add: expectedCalls_def)
      with True p show ?thesis by (simp add: callsOf_append [OF cc] ops expectedCalls_def)
    next
      case False
      with q show ?thesis using d(1) [of q] by (simp add: callsOf_append [OF cc] ops)
    qed }
  { assume "\<not> q < length (operations ?s)"
    then have "\<not> q < length (operations s)" "q \<noteq> p" using p by (auto simp: ops)
    then show "callsOf ?s q = []" using d(2) [of q] by (simp add: callsOf_append [OF cc]) }
qed

lemma callsInv_settle:
  assumes "callsInv env s" "pending s p" "r = Fulfilled \<longrightarrow> atStage s p AwaitNative"
    and cc: "collaboratorCalls s' = collaboratorCalls s"
    and ops: "operations s' = (operations s)[p := (operations s ! p)\<lparr>op_stage := Settled r\<rparr>]"
  shows "callsInv env s'"
proof (rule callsInvI)
  from assms(2) have p: "p < length (operations s)" by (simp add: pending_def)
  note d = callsInvD [OF assms(1)]
  fix q
  { assume "q < length (operations s')"
    then have q: "q < length (operations s)" by (simp add: ops)
    show "expectedCalls env (operations s' ! q) (callsOf s' q)"
    proof (cases "q = p")
      case True
      have e: "expectedCalls env (operations s ! p) (callsOf s p)" using d(1) [OF p] .
      from assms(2) have st: "op_stage (operations s ! p) = AwaitDownload \<or> op_stage (operations s ! p) = AwaitNative"
        by (simp add: pending_iff)
      show ?thesis
      proof (cases r)
        case Fulfilled
        with assms(3) have "op_stage (operations s ! p) = AwaitNative" by (simp add: atStage_def)
        with e True p Fulfilled show ?thesis
          by (simp add: callsOf_same [OF cc] ops expectedCalls_def)
      next
        case (Rejected x)
        with st e True p show ?thesis
          by (auto simp: callsOf_same [OF cc] ops expectedCalls_def)
      qed
    next
      case False
      with q show ?thesis using d(1) [of q] by (simp add: callsOf_same [OF cc] ops)
    qed }
  { assume "\<not> q < length (operations s')"
    then have "\<not> q < length (operations s)" by (simp add: ops)
    then show "callsOf s' q = []" using d(2) [of q] by (simp add: callsOf_same [OF cc]) }
qed

lemma callsInv_downloadSettled:
  assumes "callsInv env s" "atStage s p AwaitDownload"
  shows "callsInv env (downloadSettled env p r s)"
  using downloadSettled_shape [of env p r s]
proof (elim disjE exE)
  fix e assume "downloadSettled env p r s = settleOperation p (Rejected e) s"
  then show ?thesis
    using callsInv_settle [OF assms(1) atStage_pending(1) [OF assms(2)], of "Rejected e"] by simp
next
  fix a assume "downloadSettled env p r s = advanced env p a s"
  then show ?thesis using callsInv_advance [OF assms] by simp
qed

lemma callsInv_nativeSettled:
  assumes "callsInv env s" "atStage s p AwaitNative"
  shows "callsInv env (nativeSettled p r s)"
proof -
  have pd: "pending s p" using assms(2) by (rule atStage_pending(2))
  show ?thesis
  proof (cases r)
    case None
    show ?thesis
      using callsInv_settle [OF assms(1) pd, of Fulfilled "nativeSettled p None s"] assms(2) None
      by (simp add: nativeSettled_def)
  next
    case (Some e)
    show ?thesis
      using callsInv_settle [OF assms(1) pd, of "Rejected e" "nativeSettled p (Some e) s"] Some
      by (simp add: nativeSettled_def)
  qed
qed


subsection \<open>Promise.all\<close>

lemma find_isRejected_None: "find isRejected rs = None \<longleftrightarrow> (\<forall>e. Some (Rejected e) \<notin> set rs)"
proof (induction rs)
  case Nil
  then show ?case by simp
next
  case (Cons r rs)
  show ?case
  proof (cases r)
    case None
    with Cons show ?thesis by auto
  next
    case (Some x)
    with Cons show ?thesis by (cases x) auto
  qed
qed

lemma find_isRejected_Some:
  "find isRejected rs = Some r \<Longrightarrow> \<exists>e. r = Some (Rejected e) \<and> r \<in> set rs"
proof (induction rs)
  case Nil
  then show ?case by simp
next
  case (Cons x xs)
  show ?case
  proof (cases "isRejected x")
    case True
    with Cons.prems have "r = x" by simp
    with True show ?thesis by (cases x rule: isRejected.cases) auto
  next
    case False
    with Cons show ?thesis by auto
  qed
qed

lemma promiseAll_Fulfilled:
  "promiseAll rs = Some Fulfilled \<longleftrightarrow> (\<forall>r \<in> set rs. r = Some Fulfilled)"
proof
  assume a: "promiseAll rs = Some Fulfilled"
  show "\<forall>r \<in> set rs. r = Some Fulfilled"
  proof (cases "find isRejected rs")
    case None
    with a show ?thesis by (auto simp: promiseAll_def list_all_iff split: if_splits)
  next
    case (Some r)
    with a have "r = Some Fulfilled" by (simp add: promiseAll_def)
    with find_isRejected_Some [OF Some] show ?thesis by auto
  qed
next
  assume a: "\<forall>r \<in> set rs. r = Some Fulfilled"
  then have "find isRejected rs = None" by (auto simp: find_isRejected_None)
  with a show "promiseAll rs = Some Fulfilled" by (simp add: promiseAll_def list_all_iff)
qed

lemma promiseAll_Rejected:
  "promiseAll rs = Some (Rejected e) \<Longrightarrow> Some (Rejected e) \<in> set rs"
proof (cases "find isRejected rs")
  case None
  assume "promiseAll rs = Some (Rejected e)"
  with None show ?thesis by (simp add: promiseAll_def split: if_splits)
next
  case (Some r)
  assume "promiseAll rs = Some (Rejected e)"
  with Some have "r = Some (Rejected e)" by (simp add: promiseAll_def)
  with find_isRejected_Some [OF Some] show ?thesis by auto
qed

lemma promiseAll_rejects:
  assumes "Some (Rejected e) \<in> set rs"
  shows "\<exists>e'. promiseAll rs = Some (Rejected e')"
proof (cases "find isRejected rs")
  case None
  with assms show ?thesis by (simp add: find_isRejected_None)
next
  case (Some r)
  with find_isRejected_Some [OF Some] show ?thesis by (auto simp: promiseAll_def)
qed

lemma promiseAll_only_rejection:
  assumes "Some (Rejected e) \<in> set rs" "\<forall>e'. Some (Rejected e') \<in> set rs \<longrightarrow> e' = e"
  shows "promiseAll rs = Some (Rejected e)"
proof -
  from promiseAll_rejects [OF assms(1)] obtain e' where e': "promiseAll rs = Some (Rejected e')" by blast
  then have "Some (Rejected e') \<in> set rs" by (rule promiseAll_Rejected)
  with assms(2) e' show ?thesis by auto
qed

lemma outcome_simps [simp]:
  "outcome s (Resolved r) = Some r"
  "p < length (operations s) \<Longrightarrow> outcome s (Follows p) = stageOutcome (op_stage (operations s ! p))"
  "\<not> p < length (operations s) \<Longrightarrow> outcome s (Follows p) = None"
  "k < length (aggregates s) \<Longrightarrow> outcome s (All k) = agg_state (aggregates s ! k)"
  by (simp_all add: outcome_def)

text \<open>The state of a member is read from the operations and the older \<open>Promise.all\<close>s.\<close>

lemma outcome_member_unsettled:
  assumes "memberOK s k m" "length (operations s) \<le> length (operations s')"
    and "\<forall>p < length (operations s).
           stageOutcome (op_stage (operations s' ! p)) = stageOutcome (op_stage (operations s ! p))"
    and "\<forall>j < k. outcome s' (All j) = outcome s (All j)"
  shows "outcome s' m = outcome s m" "memberOK s' k m"
proof -
  show "outcome s' m = outcome s m"
  proof (cases m)
    case (Resolved r)
    then show ?thesis by simp
  next
    case (Follows p)
    with assms(1,2,3) show ?thesis by simp
  next
    case (All j)
    with assms(1,4) show ?thesis by simp
  qed
  show "memberOK s' k m" using assms(1,2) by (cases m) simp_all
qed

lemma aggregateInv_fresh:
  assumes "\<forall>m \<in> set (members a). memberOK s k m"
    and "agg_state a = promiseAll (map (outcome s) (members a))"
  shows "aggregateInv s k a"
  unfolding aggregateInv_def
proof (intro conjI allI impI)
  show "\<forall>m \<in> set (members a). memberOK s k m" by (rule assms(1))
  { assume "agg_state a = None"
    then show "promiseAll (map (outcome s) (members a)) = None" by (simp add: assms(2)) }
  { assume "agg_state a = Some Fulfilled"
    then have "promiseAll (map (outcome s) (members a)) = Some Fulfilled" by (simp add: assms(2))
    then show "\<forall>m \<in> set (members a). outcome s m = Some Fulfilled"
      by (simp add: promiseAll_Fulfilled) }
  { fix e assume "agg_state a = Some (Rejected e)"
    then have "promiseAll (map (outcome s) (members a)) = Some (Rejected e)" by (simp add: assms(2))
    then have "Some (Rejected e) \<in> set (map (outcome s) (members a))" by (rule promiseAll_Rejected)
    then show "\<exists>m \<in> set (members a). outcome s m = Some (Rejected e)" by auto }
qed

lemma aggregateInv_unsettled:
  assumes "aggregateInv s k a" "length (operations s) \<le> length (operations s')"
    and "\<forall>p < length (operations s).
           stageOutcome (op_stage (operations s' ! p)) = stageOutcome (op_stage (operations s ! p))"
    and "\<forall>j < k. outcome s' (All j) = outcome s (All j)"
  shows "aggregateInv s' k a"
proof -
  from assms(1) have ok: "\<forall>m \<in> set (members a). memberOK s k m"
    by (simp add: aggregateInv_def)
  have same: "\<And>m. m \<in> set (members a) \<Longrightarrow> outcome s' m = outcome s m"
    using ok outcome_member_unsettled(1) [OF _ assms(2,3,4)] by blast
  then have maps: "map (outcome s') (members a) = map (outcome s) (members a)" by simp
  have ok': "\<forall>m \<in> set (members a). memberOK s' k m"
    using ok outcome_member_unsettled(2) [OF _ assms(2,3,4)] by blast
  show ?thesis
    using assms(1) ok' unfolding aggregateInv_def by (simp add: maps same)
qed

lemma aggregatesInv_unsettled:
  assumes "aggregatesInv s" "aggregates s' = aggregates s"
    and "length (operations s) \<le> length (operations s')"
    and "\<forall>p < length (operations s).
           stageOutcome (op_stage (operations s' ! p)) = stageOutcome (op_stage (operations s ! p))"
  shows "aggregatesInv s'"
  unfolding aggregatesInv_def
proof (intro allI impI)
  fix k assume "k < length (aggregates s')"
  with assms(1,2) have "aggregateInv s k (aggregates s' ! k)" by (simp add: aggregatesInv_def)
  moreover have "\<forall>j < k. outcome s' (All j) = outcome s (All j)"
    by (simp add: outcome_def assms(2))
  ultimately show "aggregateInv s' k (aggregates s' ! k)"
    using aggregateInv_unsettled assms(3,4) by blast
qed

text \<open>A new \<open>Promise.all\<close> over promises that exist.\<close>

lemma aggregatesInv_newPromiseAll:
  assumes "aggregatesInv s" "\<forall>m \<in> set prs. memberOK s (length (aggregates s)) m"
  shows "aggregatesInv (snd (newPromiseAll prs s))"
  unfolding aggregatesInv_def
proof (intro allI impI)
  let ?a = "\<lparr>members = prs, agg_state = promiseAll (map (outcome s) prs)\<rparr>"
  let ?s' = "snd (newPromiseAll prs s)"
  have ags: "aggregates ?s' = aggregates s @ [?a]" and ops: "operations ?s' = operations s"
    by (simp_all add: newPromiseAll_def)
  have older: "\<And>k. k \<le> length (aggregates s) \<Longrightarrow> \<forall>j < k. outcome ?s' (All j) = outcome s (All j)"
    by (simp add: outcome_def ags nth_append)
  fix k assume "k < length (aggregates ?s')"
  then have "k < length (aggregates s) \<or> k = length (aggregates s)" by (auto simp: ags)
  then show "aggregateInv ?s' k (aggregates ?s' ! k)"
  proof
    assume k: "k < length (aggregates s)"
    with assms(1) have "aggregateInv s k (aggregates s ! k)" by (simp add: aggregatesInv_def)
    then have "aggregateInv ?s' k (aggregates s ! k)"
      by (rule aggregateInv_unsettled) (use k older [of k] in \<open>simp_all add: ops\<close>)
    with k show ?thesis by (simp add: ags nth_append)
  next
    assume k: "k = length (aggregates s)"
    have "aggregateInv s k ?a" by (rule aggregateInv_fresh) (simp_all add: assms(2) k)
    then have "aggregateInv ?s' k ?a"
      by (rule aggregateInv_unsettled) (use k older [of k] in \<open>simp_all add: ops\<close>)
    with k show ?thesis by (simp add: ags)
  qed
qed

text \<open>Looking at the \<open>Promise.all\<close>s again changes the state of pending ones only.\<close>

lemma refresh_keeps:
  "members (refresh s a) = members a"
  "agg_state a = Some x \<Longrightarrow> agg_state (refresh s a) = Some x"
  by (simp_all add: refresh_def)

lemma refreshList_length: "length (refreshList s acc rest) = length acc + length rest"
  by (induction rest arbitrary: acc) simp_all

lemma refreshList_acc: "k < length acc \<Longrightarrow> refreshList s acc rest ! k = acc ! k"
  by (induction rest arbitrary: acc) (simp_all add: nth_append)

lemma refreshList_rest:
  "i < length rest \<Longrightarrow>
   members (refreshList s acc rest ! (length acc + i)) = members (rest ! i) \<and>
   (\<forall>x. agg_state (rest ! i) = Some x \<longrightarrow>
        agg_state (refreshList s acc rest ! (length acc + i)) = Some x)"
proof (induction rest arbitrary: acc i)
  case Nil
  then show ?case by simp
next
  case (Cons a rest)
  let ?acc = "acc @ [refresh (s\<lparr>aggregates := acc\<rparr>) a]"
  show ?case
  proof (cases i)
    case 0
    have "refreshList s ?acc rest ! length acc = ?acc ! length acc"
      by (rule refreshList_acc) simp
    with 0 show ?thesis by (simp add: refresh_keeps)
  next
    case (Suc j)
    with Cons.prems have "j < length rest" by simp
    from Cons.IH [OF this, of ?acc] Suc show ?thesis by simp
  qed
qed

text \<open>
  The settlement of an operation, for the \<open>Promise.all\<close>s: those already looked at
  (\<open>acc\<close>, in place of \<open>pre\<close>) satisfy the invariant and have kept their settled
  states, and so do all of them in the end.
\<close>

lemma refreshList_inv:
  assumes "aggregatesInv s" "pending s p"
    and ops1: "operations s1 = (operations s)[p := (operations s ! p)\<lparr>op_stage := Settled r\<rparr>]"
  shows "aggregates s = pre @ rest \<Longrightarrow> length acc = length pre \<Longrightarrow>
    \<forall>k < length acc. aggregateInv (s1\<lparr>aggregates := acc\<rparr>) k (acc ! k) \<and>
       (\<forall>x. agg_state (pre ! k) = Some x \<longrightarrow> agg_state (acc ! k) = Some x) \<Longrightarrow>
    \<forall>k < length (refreshList s1 acc rest).
       aggregateInv (s1\<lparr>aggregates := refreshList s1 acc rest\<rparr>) k (refreshList s1 acc rest ! k)"
proof (induction rest arbitrary: acc pre)
  case Nil
  then show ?case by simp
next
  case (Cons a rest)
  let ?n = "length acc"
  let ?t = "s1\<lparr>aggregates := acc\<rparr>"
  let ?b = "refresh ?t a"
  let ?acc = "acc @ [?b]"
  let ?t' = "s1\<lparr>aggregates := ?acc\<rparr>"
  from assms(2) have p: "p < length (operations s)" "stageOutcome (op_stage (operations s ! p)) = None"
    by (simp_all add: pending_def)
  have n: "?n < length (aggregates s)" "aggregates s ! ?n = a"
    using Cons.prems(1,2) by (simp_all add: nth_append)
  with assms(1) have inva: "aggregateInv s ?n a" by (auto simp: aggregatesInv_def)
  then have ok: "\<forall>m \<in> set (members a). memberOK s ?n m" by (simp add: aggregateInv_def)
  have older: "\<And>k. k \<le> ?n \<Longrightarrow> \<forall>j < k. outcome ?t' (All j) = outcome ?t (All j)"
    by (simp add: outcome_def nth_append)
  have pre: "\<And>j. j < ?n \<Longrightarrow> aggregates s ! j = pre ! j"
    using Cons.prems(1,2) by (simp add: nth_append)
  text \<open>A member that was settled before the operation settled is settled the same.\<close>
  have stable: "\<And>m x. m \<in> set (members a) \<Longrightarrow> outcome s m = Some x \<Longrightarrow> outcome ?t m = Some x"
  proof -
    fix m x assume m: "m \<in> set (members a)" and o: "outcome s m = Some x"
    from m ok have mk: "memberOK s ?n m" by blast
    show "outcome ?t m = Some x"
    proof (cases m)
      case (Resolved y)
      with o show ?thesis by simp
    next
      case (Follows q)
      with mk have q: "q < length (operations s)" by simp
      with o Follows p have "q \<noteq> p" by auto
      with q o Follows show ?thesis by (simp add: ops1)
    next
      case (All j)
      with mk have j: "j < ?n" by simp
      with n(1) have "j < length (aggregates s)" by simp
      with o All have "agg_state (aggregates s ! j) = Some x" by simp
      with pre [OF j] have "agg_state (pre ! j) = Some x" by simp
      with Cons.prems(3) j have "agg_state (acc ! j) = Some x" by blast
      with All j show ?thesis by simp
    qed
  qed
  have ok_t: "\<forall>m \<in> set (members a). memberOK ?t ?n m"
  proof
    fix m assume "m \<in> set (members a)"
    with ok have "memberOK s ?n m" by blast
    then show "memberOK ?t ?n m" by (cases m) (simp_all add: ops1)
  qed
  have invb: "aggregateInv ?t ?n ?b"
  proof (cases "agg_state a")
    case None
    then have "agg_state ?b = promiseAll (map (outcome ?t) (members ?b))"
      by (simp add: refresh_def)
    moreover have "\<forall>m \<in> set (members ?b). memberOK ?t ?n m" using ok_t by (simp add: refresh_keeps)
    ultimately show ?thesis by (rule aggregateInv_fresh [rotated])
  next
    case (Some x)
    then have same: "?b = a" by (simp add: refresh_def)
    show ?thesis
      unfolding same aggregateInv_def
    proof (intro conjI allI impI)
      show "\<forall>m \<in> set (members a). memberOK ?t ?n m" by (rule ok_t)
      { assume "agg_state a = None"
        with Some show "promiseAll (map (outcome ?t) (members a)) = None" by simp }
      { assume "agg_state a = Some Fulfilled"
        with inva have "\<forall>m \<in> set (members a). outcome s m = Some Fulfilled"
          by (simp add: aggregateInv_def)
        then show "\<forall>m \<in> set (members a). outcome ?t m = Some Fulfilled" using stable by blast }
      { fix e assume "agg_state a = Some (Rejected e)"
        with inva have "\<exists>m \<in> set (members a). outcome s m = Some (Rejected e)"
          by (simp add: aggregateInv_def)
        then show "\<exists>m \<in> set (members a). outcome ?t m = Some (Rejected e)" using stable by blast }
    qed
  qed
  have step: "\<forall>k < length ?acc. aggregateInv ?t' k (?acc ! k) \<and>
       (\<forall>x. agg_state ((pre @ [a]) ! k) = Some x \<longrightarrow> agg_state (?acc ! k) = Some x)"
  proof (intro allI impI)
    fix k assume "k < length ?acc"
    then have "k < ?n \<or> k = ?n" by auto
    then show "aggregateInv ?t' k (?acc ! k) \<and>
       (\<forall>x. agg_state ((pre @ [a]) ! k) = Some x \<longrightarrow> agg_state (?acc ! k) = Some x)"
    proof
      assume k: "k < ?n"
      with Cons.prems(3) have invk: "aggregateInv ?t k (acc ! k)"
        and keep: "\<forall>x. agg_state (pre ! k) = Some x \<longrightarrow> agg_state (acc ! k) = Some x"
        by blast+
      from invk have "aggregateInv ?t' k (acc ! k)"
        by (rule aggregateInv_unsettled) (use k older [of k] in simp_all)
      with k keep Cons.prems(2) show ?thesis by (simp add: nth_append)
    next
      assume k: "k = ?n"
      from invb have "aggregateInv ?t' ?n ?b"
        by (rule aggregateInv_unsettled) (use older [of ?n] in simp_all)
      with k Cons.prems(2) show ?thesis by (simp add: nth_append refresh_keeps)
    qed
  qed
  have "aggregates s = (pre @ [a]) @ rest" using Cons.prems(1) by simp
  moreover have "length ?acc = length (pre @ [a])" using Cons.prems(2) by simp
  ultimately have "\<forall>k < length (refreshList s1 ?acc rest).
       aggregateInv (s1\<lparr>aggregates := refreshList s1 ?acc rest\<rparr>) k (refreshList s1 ?acc rest ! k)"
    using step by (rule Cons.IH)
  then show ?case by simp
qed

lemma aggregates_settleOperation:
  "aggregates (settleOperation p r s) =
     refreshList (s\<lparr>loadPromises := (loadPromises s)(op_name (operations s ! p) := None),
                    operations := (operations s)[p := (operations s ! p)\<lparr>op_stage := Settled r\<rparr>]\<rparr>)
       [] (aggregates s)"
  by (simp add: settleOperation_def Let_def)

lemma aggregatesInv_settleOperation:
  assumes "aggregatesInv s" "pending s p"
  shows "aggregatesInv (settleOperation p r s)"
proof -
  let ?s1 = "s\<lparr>loadPromises := (loadPromises s)(op_name (operations s ! p) := None),
               operations := (operations s)[p := (operations s ! p)\<lparr>op_stage := Settled r\<rparr>]\<rparr>"
  let ?L = "refreshList ?s1 [] (aggregates s)"
  have "\<forall>k < length ?L. aggregateInv (?s1\<lparr>aggregates := ?L\<rparr>) k (?L ! k)"
    by (rule refreshList_inv [OF assms, where pre = "[]"]) simp_all
  moreover have "settleOperation p r s = ?s1\<lparr>aggregates := ?L\<rparr>"
    by (simp add: settleOperation_def Let_def)
  ultimately show ?thesis by (simp add: aggregatesInv_def)
qed

lemma aggregatesInv_initial: "aggregatesInv initial"
  by (simp add: aggregatesInv_def initial_def)

lemma aggregatesInv_startOperation:
  assumes "aggregatesInv s"
  shows "aggregatesInv (snd (startOperation name a s))"
  using assms by (rule aggregatesInv_unsettled) (simp_all add: startOperation_fields nth_append)

lemma aggregatesInv_advance:
  assumes "aggregatesInv s" "atStage s p AwaitDownload"
  shows "aggregatesInv (advanced env p a s)"
  using assms(1)
proof (rule aggregatesInv_unsettled)
  show "aggregates (advanced env p a s) = aggregates s" by (simp add: advanced_def)
  show "length (operations s) \<le> length (operations (advanced env p a s))" by (simp add: advanced_def)
  show "\<forall>q < length (operations s).
           stageOutcome (op_stage (operations (advanced env p a s) ! q)) = stageOutcome (op_stage (operations s ! q))"
  proof (intro allI impI)
    fix q assume "q < length (operations s)"
    then show "stageOutcome (op_stage (operations (advanced env p a s) ! q)) = stageOutcome (op_stage (operations s ! q))"
      using assms(2) by (cases "q = p") (simp_all add: advanced_def atStage_def stageOutcome_def)
  qed
qed

lemma aggregatesInv_downloadSettled:
  assumes "aggregatesInv s" "atStage s p AwaitDownload"
  shows "aggregatesInv (downloadSettled env p r s)"
  using downloadSettled_shape [of env p r s]
proof (elim disjE exE)
  fix e assume "downloadSettled env p r s = settleOperation p (Rejected e) s"
  then show ?thesis
    using aggregatesInv_settleOperation [OF assms(1) atStage_pending(1) [OF assms(2)]] by simp
next
  fix a assume "downloadSettled env p r s = advanced env p a s"
  then show ?thesis using aggregatesInv_advance [OF assms] by simp
qed

lemma aggregatesInv_loaded_update:
  "aggregatesInv s \<Longrightarrow> aggregatesInv (s\<lparr>loaded := l\<rparr>)"
  by (erule aggregatesInv_unsettled) simp_all

lemma aggregatesInv_console_update:
  "aggregatesInv s \<Longrightarrow> aggregatesInv (s\<lparr>console := c\<rparr>)"
  by (erule aggregatesInv_unsettled) simp_all

lemma pending_loaded_update: "pending (s\<lparr>loaded := l\<rparr>) p = pending s p"
  by (simp add: pending_def)

lemma aggregatesInv_nativeSettled:
  assumes "aggregatesInv s" "atStage s p AwaitNative"
  shows "aggregatesInv (nativeSettled p r s)"
proof -
  have pd: "pending s p" using assms(2) by (rule atStage_pending(2))
  show ?thesis
  proof (cases r)
    case None
    have "aggregatesInv (settleOperation p Fulfilled (s\<lparr>loaded := (loaded s)(op_name (operations s ! p) \<mapsto> True)\<rparr>))"
      by (rule aggregatesInv_settleOperation) (simp_all add: aggregatesInv_loaded_update pending_loaded_update assms(1) pd)
    with None show ?thesis by (simp add: nativeSettled_def)
  next
    case (Some e)
    with aggregatesInv_settleOperation [OF assms(1) pd] show ?thesis by (simp add: nativeSettled_def)
  qed
qed

subsection \<open>What a single-name call does\<close>

lemma loadAsyncName_loaded:
  "truthyProperty (\<lambda>b. b) (loaded s) name \<Longrightarrow> loadAsyncName name src s = (Resolved Fulfilled, s)"
  by (simp add: loadAsyncName_def)

lemma loadAsyncName_inFlight:
  "\<not> truthyProperty (\<lambda>b. b) (loaded s) name \<Longrightarrow> loadPromises s name = Some p
   \<Longrightarrow> loadAsyncName name src s = (Follows p, s)"
  by (simp add: loadAsyncName_def getProperty_def)

lemma loadAsyncName_rejected:
  "freshName s name \<Longrightarrow> invariantSource src (noSourceMessage name) = Inl e
   \<Longrightarrow> loadAsyncName name src s = (Resolved (Rejected e), s)"
  by (simp add: loadAsyncName_def freshName_def)

lemma loadAsyncName_no_asset:
  "freshName s name \<Longrightarrow> invariantSource src (noSourceMessage name) = Inr fs
   \<Longrightarrow> getAssetForSource fs = Inl e
   \<Longrightarrow> loadAsyncName name src s = (Resolved (Rejected e), s)"
  by (simp add: loadAsyncName_def freshName_def)

lemma loadAsyncName_started:
  "freshName s name \<Longrightarrow> invariantSource src (noSourceMessage name) = Inr fs
   \<Longrightarrow> getAssetForSource fs = Inr a
   \<Longrightarrow> loadAsyncName name src s = (Follows (length (operations s)), snd (startOperation name a s))"
  by (simp add: loadAsyncName_def freshName_def startOperation_fields)

lemma loadAsyncName_result:
  assumes "inFlightInv s"
  shows "memberOK (snd (loadAsyncName name src s)) k (fst (loadAsyncName name src s))"
proof (cases "truthyProperty (\<lambda>b. b) (loaded s) name")
  case True
  then show ?thesis by (simp add: loadAsyncName_loaded)
next
  case notLoaded: False
  show ?thesis
  proof (cases "loadPromises s name")
    case (Some p)
    then have "pending s p" using inFlightInvD(1) [OF assms] by blast
    then have "p < length (operations s)" by (simp add: pending_def)
    then show ?thesis by (simp add: loadAsyncName_inFlight [OF notLoaded Some])
  next
    case None
    show ?thesis
    proof (cases "getProperty (loadPromises s) name")
      case (Own p)
      with None show ?thesis by (simp add: getProperty_def split: if_splits)
    next
      case Inherited
      with notLoaded show ?thesis by (simp add: loadAsyncName_def)
    next
      case Absent
      with notLoaded have fresh: "freshName s name" by (simp add: freshName_def)
      show ?thesis
      proof (cases "invariantSource src (noSourceMessage name)")
        case (Inl e)
        then show ?thesis by (simp add: loadAsyncName_rejected [OF fresh])
      next
        case (Inr fs)
        show ?thesis
        proof (cases "getAssetForSource fs")
          case (Inl e)
          then show ?thesis by (simp add: loadAsyncName_no_asset [OF fresh Inr])
        next
          case asset: (Inr a)
          then show ?thesis
            by (simp add: loadAsyncName_started [OF fresh Inr] startOperation_fields)
        qed
      qed
    qed
  qed
qed

subsection \<open>The invariant holds in every reachable state\<close>

lemma registryInv_initial: "registryInv env initial"
  by (simp add: registryInv_def inFlightInv_initial callsInv_initial aggregatesInv_initial)

lemma registryInv_loadAsyncName:
  assumes "registryInv env s"
  shows "registryInv env (snd (loadAsyncName name src s))"
  using loadAsyncName_cases [of name src s]
proof (elim disjE exE conjE)
  assume "snd (loadAsyncName name src s) = s"
  with assms show ?thesis by simp
next
  fix a
  assume "freshName s name"
    and "loadAsyncName name src s = (Follows (length (operations s)), snd (startOperation name a s))"
  with assms show ?thesis
    by (simp add: registryInv_def inFlightInv_startOperation callsInv_startOperation
          aggregatesInv_startOperation)
qed

lemma loadAsyncName_grows:
  "length (operations s) \<le> length (operations (snd (loadAsyncName name src s)))"
  "aggregates (snd (loadAsyncName name src s)) = aggregates s"
  using loadAsyncName_cases [of name src s] by (auto simp: startOperation_fields)

lemma loadEntries_Cons:
  "loadEntries ((name, src) # rest) s =
     (fst (loadAsyncName name src s) # fst (loadEntries rest (snd (loadAsyncName name src s))),
      snd (loadEntries rest (snd (loadAsyncName name src s))))"
  by (simp add: split_def Let_def)

lemma loadEntries_grows:
  "length (operations s) \<le> length (operations (snd (loadEntries fontMap s)))"
  "aggregates (snd (loadEntries fontMap s)) = aggregates s"
proof (induction fontMap arbitrary: s)
  case Nil
  { case 1 show ?case by simp }
  { case 2 show ?case by simp }
next
  case (Cons entry rest)
  obtain name src where e: "entry = (name, src)" by (cases entry)
  { case 1
    show ?case
      unfolding e loadEntries_Cons snd_conv
      using loadAsyncName_grows(1) [of s name src] Cons.IH(1) [of "snd (loadAsyncName name src s)"]
      by (rule le_trans) }
  { case 2
    show ?case
      unfolding e loadEntries_Cons snd_conv
      using loadAsyncName_grows(2) [of name src s] Cons.IH(2) [of "snd (loadAsyncName name src s)"]
      by simp }
qed

lemma registryInv_loadEntries:
  "registryInv env s \<Longrightarrow> registryInv env (snd (loadEntries fontMap s))"
proof (induction fontMap arbitrary: s)
  case Nil
  then show ?case by simp
next
  case (Cons entry rest)
  obtain name src where e: "entry = (name, src)" by (cases entry)
  from Cons.prems have "registryInv env (snd (loadAsyncName name src s))"
    by (rule registryInv_loadAsyncName)
  then show ?case unfolding e loadEntries_Cons snd_conv by (rule Cons.IH)
qed

lemma memberOK_mono:
  "memberOK s k m \<Longrightarrow> length (operations s) \<le> length (operations s') \<Longrightarrow> k \<le> k'
   \<Longrightarrow> memberOK s' k' m"
  by (cases m) simp_all

lemma loadEntries_single:
  "inFlightInv s \<Longrightarrow>
   \<forall>m \<in> set (fst (loadEntries fontMap s)). memberOK (snd (loadEntries fontMap s)) k m"
proof (induction fontMap arbitrary: s)
  case Nil
  then show ?case by simp
next
  case (Cons entry rest)
  obtain name src where e: "entry = (name, src)" by (cases entry)
  let ?s1 = "snd (loadAsyncName name src s)"
  have inv1: "inFlightInv ?s1"
    using loadAsyncName_cases [of name src s] Cons.prems inFlightInv_startOperation by auto
  have first: "memberOK (snd (loadEntries rest ?s1)) k (fst (loadAsyncName name src s))"
    using loadAsyncName_result [OF Cons.prems] loadEntries_grows(1) order_refl
    by (rule memberOK_mono)
  show ?case
    unfolding e loadEntries_Cons fst_conv snd_conv
    using first Cons.IH [OF inv1] by simp
qed

lemma newPromiseAll_fields [simp]:
  "loaded (snd (newPromiseAll prs s)) = loaded s"
  "loadPromises (snd (newPromiseAll prs s)) = loadPromises s"
  "operations (snd (newPromiseAll prs s)) = operations s"
  "collaboratorCalls (snd (newPromiseAll prs s)) = collaboratorCalls s"
  "console (snd (newPromiseAll prs s)) = console s"
  "fst (newPromiseAll prs s) = All (length (aggregates s))"
  "aggregates (snd (newPromiseAll prs s)) =
     aggregates s @ [\<lparr>members = prs, agg_state = promiseAll (map (outcome s) prs)\<rparr>]"
  by (simp_all add: newPromiseAll_def)

lemma registryInv_newPromiseAll:
  assumes "registryInv env s" "\<forall>m \<in> set prs. memberOK s (length (aggregates s)) m"
  shows "registryInv env (snd (newPromiseAll prs s))"
proof -
  let ?s' = "snd (newPromiseAll prs s)"
  have "aggregatesInv ?s'"
    using assms by (simp add: registryInv_def aggregatesInv_newPromiseAll)
  moreover have "inFlightInv ?s' = inFlightInv s" by (rule inFlightInv_cong) simp_all
  moreover have "callsInv env ?s' = callsInv env s" by (rule callsInv_cong) simp_all
  ultimately show ?thesis using assms(1) by (simp add: registryInv_def)
qed

lemma loadAsyncMap_eq:
  "loadAsyncMap fontMap s =
     newPromiseAll (fst (loadEntries fontMap s)) (snd (loadEntries fontMap s))"
  by (simp add: loadAsyncMap_def split_def Let_def)

lemma registryInv_loadAsyncMap:
  assumes "registryInv env s"
  shows "registryInv env (snd (loadAsyncMap fontMap s))"
  unfolding loadAsyncMap_eq
proof (rule registryInv_newPromiseAll)
  show "registryInv env (snd (loadEntries fontMap s))" using assms by (rule registryInv_loadEntries)
  show "\<forall>m \<in> set (fst (loadEntries fontMap s)).
          memberOK (snd (loadEntries fontMap s)) (length (aggregates (snd (loadEntries fontMap s)))) m"
    using assms loadEntries_single by (simp add: registryInv_def)
qed

text \<open>An array of font maps.\<close>

lemma loadMaps_Cons:
  "loadMaps (fontMap # rest) s =
     (fst (loadAsyncMap fontMap s) # fst (loadMaps rest (snd (loadAsyncMap fontMap s))),
      snd (loadMaps rest (snd (loadAsyncMap fontMap s))))"
  by (simp add: split_def Let_def)

lemma loadAsyncMap_grows:
  "length (operations s) \<le> length (operations (snd (loadAsyncMap fontMap s)))"
  "length (aggregates (snd (loadAsyncMap fontMap s))) = Suc (length (aggregates s))"
  "fst (loadAsyncMap fontMap s) = All (length (aggregates s))"
  by (simp_all add: loadAsyncMap_eq loadEntries_grows)

lemma loadMaps_grows:
  "length (operations s) \<le> length (operations (snd (loadMaps fontMaps s)))"
  "length (aggregates s) \<le> length (aggregates (snd (loadMaps fontMaps s)))"
proof (induction fontMaps arbitrary: s)
  case Nil
  { case 1 show ?case by simp }
  { case 2 show ?case by simp }
next
  case (Cons fontMap rest)
  { case 1
    show ?case
      unfolding loadMaps_Cons snd_conv
      using loadAsyncMap_grows(1) [of s fontMap] Cons.IH(1) [of "snd (loadAsyncMap fontMap s)"]
      by (rule le_trans) }
  { case 2
    show ?case
      unfolding loadMaps_Cons snd_conv
      using loadAsyncMap_grows(2) [of fontMap s] Cons.IH(2) [of "snd (loadAsyncMap fontMap s)"]
      by simp }
qed

lemma registryInv_loadMaps:
  "registryInv env s \<Longrightarrow> registryInv env (snd (loadMaps fontMaps s))"
proof (induction fontMaps arbitrary: s)
  case Nil
  then show ?case by simp
next
  case (Cons fontMap rest)
  from Cons.prems have "registryInv env (snd (loadAsyncMap fontMap s))"
    by (rule registryInv_loadAsyncMap)
  then show ?case unfolding loadMaps_Cons snd_conv by (rule Cons.IH)
qed

lemma loadMaps_members:
  "\<forall>m \<in> set (fst (loadMaps fontMaps s)).
     \<exists>j < length (aggregates (snd (loadMaps fontMaps s))). m = All j"
proof (induction fontMaps arbitrary: s)
  case Nil
  show ?case by simp
next
  case (Cons fontMap rest)
  let ?s1 = "snd (loadAsyncMap fontMap s)"
  have "length (aggregates s) < length (aggregates ?s1)" by (simp add: loadAsyncMap_grows)
  also have "\<dots> \<le> length (aggregates (snd (loadMaps rest ?s1)))" by (rule loadMaps_grows)
  finally have "\<exists>j < length (aggregates (snd (loadMaps rest ?s1))). fst (loadAsyncMap fontMap s) = All j"
    by (simp add: loadAsyncMap_grows)
  with Cons.IH [of ?s1] show ?case unfolding loadMaps_Cons fst_conv snd_conv by simp
qed

lemma loadAsyncArray_eq:
  "loadAsyncArray fontMaps s =
     newPromiseAll (fst (loadMaps fontMaps (s\<lparr>console := console s @ [ArrayDeprecated]\<rparr>)))
       (snd (loadMaps fontMaps (s\<lparr>console := console s @ [ArrayDeprecated]\<rparr>)))"
  by (simp add: loadAsyncArray_def split_def Let_def)

lemma registryInv_console_update:
  assumes "registryInv env s"
  shows "registryInv env (s\<lparr>console := c\<rparr>)"
proof -
  have "inFlightInv (s\<lparr>console := c\<rparr>) = inFlightInv s" by (rule inFlightInv_cong) simp_all
  moreover have "callsInv env (s\<lparr>console := c\<rparr>) = callsInv env s" by (rule callsInv_cong) simp_all
  ultimately show ?thesis using assms by (simp add: registryInv_def aggregatesInv_console_update)
qed

lemma registryInv_loadAsyncArray:
  assumes "registryInv env s"
  shows "registryInv env (snd (loadAsyncArray fontMaps s))"
  unfolding loadAsyncArray_eq
proof (rule registryInv_newPromiseAll)
  let ?s0 = "s\<lparr>console := console s @ [ArrayDeprecated]\<rparr>"
  show "registryInv env (snd (loadMaps fontMaps ?s0))"
    using assms by (intro registryInv_loadMaps registryInv_console_update)
  show "\<forall>m \<in> set (fst (loadMaps fontMaps ?s0)).
          memberOK (snd (loadMaps fontMaps ?s0)) (length (aggregates (snd (loadMaps fontMaps ?s0)))) m"
    using loadMaps_members [of fontMaps ?s0] by auto
qed

lemma registryInv_processFontFamily:
  assumes "registryInv env s"
  shows "registryInv env (snd (processFontFamily env name s))"
proof -
  let ?s = "snd (processFontFamily env name s)"
  have "inFlightInv ?s = inFlightInv s" by (rule inFlightInv_cong) simp_all
  moreover have "callsInv env ?s = callsInv env s" by (rule callsInv_cong) simp_all
  moreover have "aggregatesInv s \<Longrightarrow> aggregatesInv ?s" by (erule aggregatesInv_unsettled) simp_all
  ultimately show ?thesis using assms by (simp add: registryInv_def)
qed

lemma registryInv_step:
  assumes "registryInv env s" "step env e s = Some s'"
  shows "registryInv env s'"
proof (cases e)
  case (CallLoadAsync nm src)
  show ?thesis
  proof (cases nm)
    case (Name name)
    with CallLoadAsync assms(2) have "s' = snd (loadAsyncName name src s)"
      by (simp add: step_def loadAsync_def)
    with assms(1) show ?thesis by (simp add: registryInv_loadAsyncName)
  next
    case (FontMap fontMap)
    with CallLoadAsync assms(2) have "s' = snd (loadAsyncMap fontMap s)"
      by (simp add: step_def loadAsync_def)
    with assms(1) show ?thesis by (simp add: registryInv_loadAsyncMap)
  next
    case (FontMaps fontMaps)
    with CallLoadAsync assms(2) have "s' = snd (loadAsyncArray fontMaps s)"
      by (simp add: step_def loadAsync_def)
    with assms(1) show ?thesis by (simp add: registryInv_loadAsyncArray)
  qed
next
  case (CallProcessFontFamily name)
  with assms(2) have "s' = snd (processFontFamily env name s)" by (simp add: step_def)
  with assms(1) show ?thesis by (simp add: registryInv_processFontFamily)
next
  case (DownloadSettles p r)
  with assms(2) have st: "atStage s p AwaitDownload" and s': "s' = downloadSettled env p r s"
    by (auto simp: step_def split: if_splits)
  with assms(1) show ?thesis
    by (simp add: registryInv_def inFlightInv_downloadSettled callsInv_downloadSettled
          aggregatesInv_downloadSettled)
next
  case (NativeSettles p r)
  with assms(2) have st: "atStage s p AwaitNative" and s': "s' = nativeSettled p r s"
    by (auto simp: step_def split: if_splits)
  with assms(1) show ?thesis
    by (simp add: registryInv_def inFlightInv_nativeSettled callsInv_nativeSettled
          aggregatesInv_nativeSettled)
qed

lemma registryInv_run:
  "registryInv env s \<Longrightarrow> run env es s = Some s' \<Longrightarrow> registryInv env s'"
proof (induction es arbitrary: s)
  case Nil
  then show ?case by simp
next
  case (Cons e es)
  from Cons.prems(2) obtain s1 where s1: "step env e s = Some s1" and r: "run env es s1 = Some s'"
    by (auto split: option.splits)
  from Cons.prems(1) s1 have "registryInv env s1" by (rule registryInv_step)
  then show ?case using r by (rule Cons.IH)
qed

lemma reachable_registryInv: "reachable env s \<Longrightarrow> registryInv env s"
  unfolding reachable_def using registryInv_run [OF registryInv_initial] by blast

lemma run_append:
  "run env (es @ fs) s = (case run env es s of None \<Rightarrow> None | Some s1 \<Rightarrow> run env fs s1)"
  by (induction es arbitrary: s) (auto split: option.splits)

lemma reachable_run: "reachable env s \<Longrightarrow> run env es s = Some s' \<Longrightarrow> reachable env s'"
  unfolding reachable_def using run_append by (metis option.simps(5))

lemma reachable_step: "reachable env s \<Longrightarrow> step env e s = Some s' \<Longrightarrow> reachable env s'"
  using reachable_run [of env s "[e]" s'] by simp

lemma reachable_initial: "reachable env initial"
  unfolding reachable_def using run.simps(1) by blast

subsection \<open>Queries in reachable states, and the loaded set\<close>

lemma isLoaded_reachable:
  assumes "reachable env s"
  shows "isLoaded s name = Inr (loaded s name \<noteq> None)"
    and "isLoading s name = Inr (loadPromises s name \<noteq> None)"
proof -
  from assms have "inFlightInv s" using reachable_registryInv by (simp add: registryInv_def)
  moreover have "''hasOwnProperty'' \<in> set objectPrototypeKeys" by (simp add: objectPrototypeKeys_def)
  ultimately have "loaded s ''hasOwnProperty'' = None" "loadPromises s ''hasOwnProperty'' = None"
    using inFlightInvD(4,5) by blast+
  then show "isLoaded s name = Inr (loaded s name \<noteq> None)"
    and "isLoading s name = Inr (loadPromises s name \<noteq> None)"
    by (simp_all add: isLoaded_def isLoading_def hasOwnProperty_def)
qed

lemma freshName_initial: "name \<notin> set objectPrototypeKeys \<Longrightarrow> freshName initial name"
  by (simp add: freshName_iff initial_def)

lemma loadAsync_fresh_name_bad_source:
  assumes "freshName s name"
  shows "loadAsync (Name name) None s =
           (Resolved (Rejected (InvariantViolation (formatWithoutArguments (noSourceMessage name)))), s)"
    and "loadAsync (Name name) (Some (Uri [])) s =
           (Resolved (Rejected (InvariantViolation (formatWithoutArguments (noSourceMessage name)))), s)"
    and "u \<noteq> [] \<Longrightarrow> loadAsync (Name name) (Some (Uri u)) s =
           (Resolved (Rejected (Error remoteUriMessage)), s)"
  using assms
  by (simp_all add: loadAsync_def loadAsyncName_def freshName_def invariantSource_def
        truthySource_def getAssetForSource_def)

lemma loadAsyncName_loaded_same [simp]: "loaded (snd (loadAsyncName name src s)) = loaded s"
  using loadAsyncName_cases [of name src s] by (auto simp: startOperation_fields)

lemma loadEntries_loaded_same [simp]: "loaded (snd (loadEntries fontMap s)) = loaded s"
proof (induction fontMap arbitrary: s)
  case Nil
  show ?case by simp
next
  case (Cons entry rest)
  obtain name src where e: "entry = (name, src)" by (cases entry)
  show ?case unfolding e loadEntries_Cons snd_conv by (simp add: Cons.IH)
qed

lemma loadAsyncMap_loaded_same [simp]: "loaded (snd (loadAsyncMap fontMap s)) = loaded s"
  by (simp add: loadAsyncMap_eq)

lemma loadMaps_loaded_same [simp]: "loaded (snd (loadMaps fontMaps s)) = loaded s"
proof (induction fontMaps arbitrary: s)
  case Nil
  show ?case by simp
next
  case (Cons fontMap rest)
  show ?case unfolding loadMaps_Cons snd_conv by (simp add: Cons.IH)
qed

lemma loadAsync_loaded_same [simp]: "loaded (snd (loadAsync nm src s)) = loaded s"
  by (cases nm) (simp_all add: loadAsync_def loadAsyncArray_eq)

lemma downloadSettled_loaded_same [simp]: "loaded (downloadSettled env p r s) = loaded s"
  using downloadSettled_shape [of env p r s] by (auto simp: advanced_def)

lemma step_loaded:
  assumes "step env e s = Some s'"
  shows "loaded s' = loaded s \<or>
    (\<exists>p. e = NativeSettles p None \<and> atStage s p AwaitNative \<and>
         loaded s' = (loaded s)(op_name (operations s ! p) \<mapsto> True))"
proof (cases e)
  case (CallLoadAsync nm src)
  with assms show ?thesis by (auto simp: step_def)
next
  case (CallProcessFontFamily name)
  with assms show ?thesis by (auto simp: step_def)
next
  case (DownloadSettles p r)
  with assms show ?thesis by (auto simp: step_def split: if_splits)
next
  case (NativeSettles p r)
  with assms show ?thesis by (cases r) (auto simp: step_def nativeSettled_def split: if_splits)
qed

lemma step_loaded_mono:
  assumes "step env e s = Some s'" "loaded s n \<noteq> None"
  shows "loaded s' n \<noteq> None"
  using step_loaded [OF assms(1)] assms(2) by auto

lemma run_loaded_mono:
  "run env es s = Some s' \<Longrightarrow> loaded s n \<noteq> None \<Longrightarrow> loaded s' n \<noteq> None"
proof (induction es arbitrary: s)
  case Nil
  then show ?case by simp
next
  case (Cons e es)
  from Cons.prems(1) obtain s1 where s1: "step env e s = Some s1" and r: "run env es s1 = Some s'"
    by (auto split: option.splits)
  from s1 Cons.prems(2) have "loaded s1 n \<noteq> None" by (rule step_loaded_mono)
  with r show ?case by (rule Cons.IH)
qed

lemma native_call_made:
  assumes "reachable env s" "atStage s p AwaitNative"
  shows "\<exists>u. (p, NativeLoadAsync (getNativeFontName env (op_name (operations s ! p))) u)
            \<in> set (collaboratorCalls s)"
proof -
  from assms(1) have "callsInv env s" using reachable_registryInv by (simp add: registryInv_def)
  moreover from assms(2) have p: "p < length (operations s)" "op_stage (operations s ! p) = AwaitNative"
    by (simp_all add: atStage_def)
  ultimately have "expectedCalls env (operations s ! p) (callsOf s p)" using callsInvD(1) by blast
  with p(2) obtain u where
    "callsOf s p = [DownloadAsync (op_asset (operations s ! p)),
                    NativeLoadAsync (getNativeFontName env (op_name (operations s ! p))) u]"
    by (auto simp: expectedCalls_def)
  then have "NativeLoadAsync (getNativeFontName env (op_name (operations s ! p))) u \<in> set (callsOf s p)"
    by simp
  then have "(p, NativeLoadAsync (getNativeFontName env (op_name (operations s ! p))) u)
               \<in> set (collaboratorCalls s)"
    by (auto simp: callsOf_def)
  then show ?thesis by blast
qed

subsection \<open>The example run\<close>

lemmas model_defs =
  loadAsync_def loadAsyncName_def loadAsyncMap_def loadAsyncArray_def newPromiseAll_def
  truthyProperty_def getProperty_def
  objectPrototypeKeys_def invariantSource_def truthySource_def getAssetForSource_def
  startOperation_def loadSingleFontAsync_def loadSingleFontAsync_resumed_def
  downloadSettled_def nativeSettled_def settleOperation_def refresh_def promiseAll_def
  outcome_def stageOutcome_def isLoaded_def isLoading_def hasOwnProperty_def
  processFontFamily_def getNativeFontName_def step_def atStage_def
  noSourceMessage_def downloadFailedMessage_def

lemma fooLoading_eq:
  "fooLoading = \<lparr>loaded = Map.empty, loadPromises = [''Foo'' \<mapsto> 0],
     operations = [\<lparr>op_name = ''Foo'', op_asset = FromModule 1, op_stage = AwaitDownload\<rparr>],
     aggregates = [], collaboratorCalls = [(0, DownloadAsync (FromModule 1))], console = []\<rparr>"
  by (simp add: fooLoading_def initial_def model_defs)

lemma fooRegistering_eq:
  "fooRegistering = \<lparr>loaded = Map.empty, loadPromises = [''Foo'' \<mapsto> 0],
     operations = [\<lparr>op_name = ''Foo'', op_asset = FromModule 1, op_stage = AwaitNative\<rparr>],
     aggregates = [],
     collaboratorCalls = [(0, DownloadAsync (FromModule 1)),
                          (0, NativeLoadAsync ''abc-Foo'' (Some ''file:///Foo.ttf''))],
     console = []\<rparr>"
  by (simp add: fooRegistering_def fooLoading_eq fooFile_def exampleEnv_def model_defs)

lemma fooLoaded_eq:
  "fooLoaded = \<lparr>loaded = [''Foo'' \<mapsto> True], loadPromises = Map.empty,
     operations = [\<lparr>op_name = ''Foo'', op_asset = FromModule 1, op_stage = Settled Fulfilled\<rparr>],
     aggregates = [],
     collaboratorCalls = [(0, DownloadAsync (FromModule 1)),
                          (0, NativeLoadAsync ''abc-Foo'' (Some ''file:///Foo.ttf''))],
     console = []\<rparr>"
  by (simp add: fooLoaded_def fooRegistering_eq model_defs)

lemma foo_steps:
  "step exampleEnv (CallLoadAsync (Name ''Foo'') (Some (Module 1))) initial = Some fooLoading"
  "step exampleEnv (DownloadSettles 0 (Inr fooFile)) fooLoading = Some fooRegistering"
  "step exampleEnv (NativeSettles 0 None) fooRegistering = Some fooLoaded"
proof -
  show "step exampleEnv (CallLoadAsync (Name ''Foo'') (Some (Module 1))) initial = Some fooLoading"
    by (simp add: step_def fooLoading_def)
  have "atStage fooLoading 0 AwaitDownload" by (simp add: atStage_def fooLoading_eq)
  then show "step exampleEnv (DownloadSettles 0 (Inr fooFile)) fooLoading = Some fooRegistering"
    by (simp add: step_def fooRegistering_def)
  have "atStage fooRegistering 0 AwaitNative" by (simp add: atStage_def fooRegistering_eq)
  then show "step exampleEnv (NativeSettles 0 None) fooRegistering = Some fooLoaded"
    by (simp add: step_def fooLoaded_def)
qed

lemma foo_run:
  "run exampleEnv [CallLoadAsync (Name ''Foo'') (Some (Module 1))] initial = Some fooLoading"
  "run exampleEnv [CallLoadAsync (Name ''Foo'') (Some (Module 1)), DownloadSettles 0 (Inr fooFile)] initial
     = Some fooRegistering"
  "run exampleEnv [CallLoadAsync (Name ''Foo'') (Some (Module 1)), DownloadSettles 0 (Inr fooFile),
      NativeSettles 0 None] initial = Some fooLoaded"
  by (simp_all add: foo_steps)

lemma foo_reachable:
  "reachable exampleEnv fooLoading" "reachable exampleEnv fooRegistering" "reachable exampleEnv fooLoaded"
  unfolding reachable_def using foo_run by blast+

lemma fooFailed_eq:
  "fooFailed = \<lparr>loaded = Map.empty, loadPromises = Map.empty,
     operations = [\<lparr>op_name = ''Foo'', op_asset = FromModule 1,
        op_stage = Settled (Rejected (Error (downloadFailedMessage ''Foo'')))\<rparr>],
     aggregates = [], collaboratorCalls = [(0, DownloadAsync (FromModule 1))], console = []\<rparr>"
  by (simp add: fooFailed_def fooLoading_eq noFile_def
        downloadSettled_def loadSingleFontAsync_resumed_def settleOperation_def)

lemma fooFailed_step:
  "step exampleEnv (DownloadSettles 0 (Inr noFile)) fooLoading = Some fooFailed"
proof -
  have "atStage fooLoading 0 AwaitDownload" by (simp add: atStage_def fooLoading_eq)
  then show ?thesis by (simp add: step_def fooFailed_def)
qed

lemma fooFailed_reachable: "reachable exampleEnv fooFailed"
  using foo_reachable(1) fooFailed_step by (rule reachable_step)

subsection \<open>What a step does to an operation\<close>

lemma loadAsyncName_prefix: "prefix (operations s) (operations (snd (loadAsyncName name src s)))"
  using loadAsyncName_cases [of name src s] by (auto simp: startOperation_fields)

lemma loadEntries_prefix: "prefix (operations s) (operations (snd (loadEntries fontMap s)))"
proof (induction fontMap arbitrary: s)
  case Nil
  show ?case by simp
next
  case (Cons entry rest)
  obtain name src where e: "entry = (name, src)" by (cases entry)
  show ?case
    unfolding e loadEntries_Cons snd_conv
    using loadAsyncName_prefix [of s name src] Cons.IH [of "snd (loadAsyncName name src s)"]
    by (rule prefix_order.trans)
qed

lemma loadAsyncMap_prefix: "prefix (operations s) (operations (snd (loadAsyncMap fontMap s)))"
  by (simp add: loadAsyncMap_eq loadEntries_prefix)

lemma loadMaps_prefix: "prefix (operations s) (operations (snd (loadMaps fontMaps s)))"
proof (induction fontMaps arbitrary: s)
  case Nil
  show ?case by simp
next
  case (Cons fontMap rest)
  show ?case
    unfolding loadMaps_Cons snd_conv
    using loadAsyncMap_prefix [of s fontMap] Cons.IH [of "snd (loadAsyncMap fontMap s)"]
    by (rule prefix_order.trans)
qed

lemma loadAsyncArray_prefix: "prefix (operations s) (operations (snd (loadAsyncArray fontMaps s)))"
  using loadMaps_prefix [of "s\<lparr>console := console s @ [ArrayDeprecated]\<rparr>" fontMaps]
  by (simp add: loadAsyncArray_eq)

lemma loadAsync_prefix: "prefix (operations s) (operations (snd (loadAsync nm src s)))"
  by (cases nm)
     (simp_all add: loadAsync_def loadAsyncName_prefix loadAsyncMap_prefix loadAsyncArray_prefix)

lemma prefix_nth: "prefix xs ys \<Longrightarrow> p < length xs \<Longrightarrow> ys ! p = xs ! p"
  by (auto simp: prefix_def nth_append)

text \<open>
  A step leaves an operation as it is, or moves it from the download to the native
  loader, or settles it; the last two only by a settlement of its own promises.
\<close>

lemma step_operation:
  assumes "step env e s = Some s'" "p < length (operations s)"
  shows "p < length (operations s')"
    and "operations s' ! p = operations s ! p
       \<or> (\<exists>x. e = DownloadSettles p x \<and> atStage s p AwaitDownload \<and> s' = downloadSettled env p x s)
       \<or> (\<exists>y. e = NativeSettles p y \<and> atStage s p AwaitNative \<and> s' = nativeSettled p y s)"
proof -
  have "p < length (operations s') \<and> (operations s' ! p = operations s ! p
       \<or> (\<exists>x. e = DownloadSettles p x \<and> atStage s p AwaitDownload \<and> s' = downloadSettled env p x s)
       \<or> (\<exists>y. e = NativeSettles p y \<and> atStage s p AwaitNative \<and> s' = nativeSettled p y s))"
  proof (cases e)
    case (CallLoadAsync nm src)
    with assms(1) have "s' = snd (loadAsync nm src s)" by (simp add: step_def)
    then have "prefix (operations s) (operations s')" by (simp add: loadAsync_prefix)
    with assms(2) show ?thesis using prefix_nth prefix_length_le by fastforce
  next
    case (CallProcessFontFamily name)
    with assms show ?thesis by (auto simp: step_def)
  next
    case (DownloadSettles q x)
    with assms(1) have st: "atStage s q AwaitDownload" and s': "s' = downloadSettled env q x s"
      by (auto simp: step_def split: if_splits)
    show ?thesis
    proof (cases "q = p")
      case True
      with DownloadSettles st s' assms(2) show ?thesis
        using downloadSettled_shape [of env p x s] by (auto simp: advanced_def)
    next
      case False
      with s' assms(2) show ?thesis
        using downloadSettled_shape [of env q x s] by (auto simp: advanced_def)
    qed
  next
    case (NativeSettles q y)
    with assms(1) have st: "atStage s q AwaitNative" and s': "s' = nativeSettled q y s"
      by (auto simp: step_def split: if_splits)
    show ?thesis
    proof (cases "q = p")
      case True
      with NativeSettles st s' assms(2) show ?thesis
        by (cases y) (auto simp: nativeSettled_def)
    next
      case False
      with s' assms(2) show ?thesis by (cases y) (auto simp: nativeSettled_def)
    qed
  qed
  then show "p < length (operations s')"
    and "operations s' ! p = operations s ! p
       \<or> (\<exists>x. e = DownloadSettles p x \<and> atStage s p AwaitDownload \<and> s' = downloadSettled env p x s)
       \<or> (\<exists>y. e = NativeSettles p y \<and> atStage s p AwaitNative \<and> s' = nativeSettled p y s)"
    by blast+
qed

text \<open>A settled promise keeps its state.\<close>

lemma step_settled_stays:
  assumes "step env e s = Some s'" "p < length (operations s)" "op_stage (operations s ! p) = Settled r"
  shows "p < length (operations s') \<and> op_stage (operations s' ! p) = Settled r
       \<and> op_name (operations s' ! p) = op_name (operations s ! p)"
  using step_operation [OF assms(1,2)] assms(3) by (auto simp: atStage_def)

lemma run_settled_stays:
  "run env es s = Some s' \<Longrightarrow> p < length (operations s) \<Longrightarrow> op_stage (operations s ! p) = Settled r
   \<Longrightarrow> p < length (operations s') \<and> op_stage (operations s' ! p) = Settled r
       \<and> op_name (operations s' ! p) = op_name (operations s ! p)"
proof (induction es arbitrary: s)
  case Nil
  then show ?case by simp
next
  case (Cons e es)
  from Cons.prems(1) obtain s1 where s1: "step env e s = Some s1" and r: "run env es s1 = Some s'"
    by (auto split: option.splits)
  from step_settled_stays [OF s1 Cons.prems(2,3)] Cons.IH [OF r] show ?case by simp
qed

lemma update_stage_op_name:
  "q < length ops \<Longrightarrow> op_name (ops[p := (ops ! p)\<lparr>op_stage := st\<rparr>] ! q) = op_name (ops ! q)"
  by (cases "q = p") simp_all

lemma downloadSettled_op_name:
  assumes "q < length (operations s)"
  shows "op_name (operations (downloadSettled env p x s) ! q) = op_name (operations s ! q)"
  using downloadSettled_shape [of env p x s]
proof (elim disjE exE)
  fix e assume "downloadSettled env p x s = settleOperation p (Rejected e) s"
  with assms show ?thesis by (simp add: update_stage_op_name)
next
  fix a assume "downloadSettled env p x s = advanced env p a s"
  with assms show ?thesis by (simp add: advanced_def update_stage_op_name)
qed

lemma nativeSettled_op_name:
  assumes "q < length (operations s)"
  shows "op_name (operations (nativeSettled p y s) ! q) = op_name (operations s ! q)"
  using assms by (cases y) (simp_all add: nativeSettled_def update_stage_op_name)

lemma step_op_name:
  assumes "step env e s = Some s'" "p < length (operations s)"
  shows "op_name (operations s' ! p) = op_name (operations s ! p)"
  using step_operation(2) [OF assms] assms(2)
  by (auto simp: downloadSettled_op_name nativeSettled_op_name)

lemma update_stage_op_asset:
  "q < length ops \<Longrightarrow> op_asset (ops[p := (ops ! p)\<lparr>op_stage := st\<rparr>] ! q) = op_asset (ops ! q)"
  by (cases "q = p") simp_all

lemma step_op_asset:
  assumes "step env e s = Some s'" "p < length (operations s)"
  shows "op_asset (operations s' ! p) = op_asset (operations s ! p)"
  using step_operation(2) [OF assms]
proof (elim disjE exE conjE)
  assume "operations s' ! p = operations s ! p"
  then show ?thesis by simp
next
  fix x assume s': "s' = downloadSettled env p x s"
  from downloadSettled_shape [of env p x s] show ?thesis
  proof (elim disjE exE)
    fix err assume "downloadSettled env p x s = settleOperation p (Rejected err) s"
    with s' assms(2) show ?thesis by (simp add: update_stage_op_asset)
  next
    fix f assume "downloadSettled env p x s = advanced env p f s"
    with s' assms(2) show ?thesis by (simp add: advanced_def update_stage_op_asset)
  qed
next
  fix y assume "s' = nativeSettled p y s"
  with assms(2) show ?thesis by (cases y) (simp_all add: nativeSettled_def update_stage_op_asset)
qed

lemma run_op_asset:
  "run env es s = Some s' \<Longrightarrow> p < length (operations s)
   \<Longrightarrow> op_asset (operations s' ! p) = op_asset (operations s ! p)"
proof (induction es arbitrary: s)
  case Nil
  then show ?case by simp
next
  case (Cons e es)
  from Cons.prems(1) obtain s1 where s1: "step env e s = Some s1" and r: "run env es s1 = Some s'"
    by (auto split: option.splits)
  from step_operation(1) [OF s1 Cons.prems(2)] have "p < length (operations s1)" .
  from Cons.IH [OF r this] step_op_asset [OF s1 Cons.prems(2)] show ?case by simp
qed

text \<open>The step in which an operation settles.\<close>

lemma step_settles:
  assumes "step env e s = Some s'" "pending s p" "\<not> pending s' p"
  shows "\<exists>r. operations s' = (operations s)[p := (operations s ! p)\<lparr>op_stage := Settled r\<rparr>]
       \<and> loadPromises s' = (loadPromises s)(op_name (operations s ! p) := None)
       \<and> loaded s' = (if r = Fulfilled then (loaded s)(op_name (operations s ! p) \<mapsto> True) else loaded s)
       \<and> collaboratorCalls s' = collaboratorCalls s"
proof -
  from assms(2) have p: "p < length (operations s)" by (simp add: pending_def)
  from step_operation [OF assms(1) p] assms(2,3)
  consider x where "e = DownloadSettles p x" "atStage s p AwaitDownload" "s' = downloadSettled env p x s"
    | y where "e = NativeSettles p y" "atStage s p AwaitNative" "s' = nativeSettled p y s"
    by (auto simp: pending_def)
  then show ?thesis
  proof cases
    case 1
    from downloadSettled_shape [of env p x s] show ?thesis
    proof (elim disjE exE)
      fix err assume "downloadSettled env p x s = settleOperation p (Rejected err) s"
      with 1(3) show ?thesis by auto
    next
      fix a assume "downloadSettled env p x s = advanced env p a s"
      with 1(3) p have "pending s' p" by (simp add: advanced_def pending_def stageOutcome_def)
      with assms(3) show ?thesis by simp
    qed
  next
    case 2
    then show ?thesis by (cases y) (auto simp: nativeSettled_def)
  qed
qed

lemma reachable_inFlightInv: "reachable env s \<Longrightarrow> inFlightInv s"
  using reachable_registryInv by (simp add: registryInv_def)

lemma in_flight_not_loaded:
  assumes "inFlightInv s" "loadPromises s name = Some p"
  shows "loaded s name = None" "name \<notin> set objectPrototypeKeys"
    "\<not> truthyProperty (\<lambda>b. b) (loaded s) name"
proof -
  show l: "loaded s name = None" using inFlightInvD(7) [OF assms(1), of name] assms(2) by fastforce
  show n: "name \<notin> set objectPrototypeKeys" using inFlightInvD(5) [OF assms(1), of name] assms(2) by fastforce
  from l n show "\<not> truthyProperty (\<lambda>b. b) (loaded s) name"
    by (simp add: truthyProperty_def getProperty_def)
qed

lemma expectedCalls_shape:
  assumes "expectedCalls env opn cs"
  shows "cs = [DownloadAsync (op_asset opn)] \<or>
    (\<exists>u. cs = [DownloadAsync (op_asset opn), NativeLoadAsync (getNativeFontName env (op_name opn)) u])"
proof (cases "op_stage opn")
  case AwaitDownload
  with assms show ?thesis by (simp add: expectedCalls_def)
next
  case AwaitNative
  with assms show ?thesis by (simp add: expectedCalls_def)
next
  case (Settled r)
  with assms show ?thesis by (cases r) (simp_all add: expectedCalls_def Let_def)
qed

lemma reachable_loadAsync: "reachable env s \<Longrightarrow> reachable env (snd (loadAsync nm src s))"
  by (erule reachable_step [where e = "CallLoadAsync nm src"]) (simp add: step_def)

lemma invariantSource_truthy: "truthySource fs \<Longrightarrow> invariantSource (Some fs) m = Inr fs"
  by (simp add: invariantSource_def)

subsection \<open>Font maps\<close>

lemma pending_prefix:
  assumes "pending s p" "prefix (operations s) (operations s')"
  shows "pending s' p" "operations s' ! p = operations s ! p"
proof -
  from assms(1) have p: "p < length (operations s)" by (simp add: pending_def)
  show e: "operations s' ! p = operations s ! p" using assms(2) p by (rule prefix_nth)
  from p prefix_length_le [OF assms(2)] have "p < length (operations s')" by simp
  with assms(1) e show "pending s' p" by (simp add: pending_def)
qed

text \<open>
  The promise of a single-name call is settled at once, or follows a pending operation
  for that name.
\<close>

lemma loadAsyncName_member:
  assumes "inFlightInv s"
  shows "(\<exists>r. fst (loadAsyncName name src s) = Resolved r) \<or>
    (\<exists>p. fst (loadAsyncName name src s) = Follows p \<and> pending (snd (loadAsyncName name src s)) p \<and>
         op_name (operations (snd (loadAsyncName name src s)) ! p) = name)"
proof (cases "truthyProperty (\<lambda>b. b) (loaded s) name")
  case True
  then show ?thesis by (simp add: loadAsyncName_loaded)
next
  case notLoaded: False
  show ?thesis
  proof (cases "loadPromises s name")
    case (Some p)
    with inFlightInvD(1,2) [OF assms Some] show ?thesis
      by (simp add: loadAsyncName_inFlight [OF notLoaded Some])
  next
    case None
    show ?thesis
    proof (cases "getProperty (loadPromises s) name")
      case (Own p)
      with None show ?thesis by (simp add: getProperty_def split: if_splits)
    next
      case Inherited
      with notLoaded show ?thesis by (simp add: loadAsyncName_def)
    next
      case Absent
      with notLoaded have fresh: "freshName s name" by (simp add: freshName_def)
      show ?thesis
      proof (cases "invariantSource src (noSourceMessage name)")
        case (Inl e)
        then show ?thesis by (simp add: loadAsyncName_rejected [OF fresh])
      next
        case (Inr fs)
        show ?thesis
        proof (cases "getAssetForSource fs")
          case (Inl e)
          then show ?thesis by (simp add: loadAsyncName_no_asset [OF fresh Inr])
        next
          case asset: (Inr a)
          then show ?thesis
            by (simp add: loadAsyncName_started [OF fresh Inr] startOperation_fields
                  pending_def stageOutcome_def)
        qed
      qed
    qed
  qed
qed

lemma loadEntries_members:
  "inFlightInv s \<Longrightarrow>
   length (fst (loadEntries fontMap s)) = length fontMap \<and>
   (\<forall>i < length fontMap.
      (\<exists>r. fst (loadEntries fontMap s) ! i = Resolved r) \<or>
      (\<exists>p. fst (loadEntries fontMap s) ! i = Follows p \<and> pending (snd (loadEntries fontMap s)) p \<and>
           op_name (operations (snd (loadEntries fontMap s)) ! p) = fst (fontMap ! i)))"
proof (induction fontMap arbitrary: s)
  case Nil
  then show ?case by simp
next
  case (Cons entry rest)
  obtain name src where e: "entry = (name, src)" by (cases entry)
  let ?s1 = "snd (loadAsyncName name src s)"
  let ?s2 = "snd (loadEntries rest ?s1)"
  have inv1: "inFlightInv ?s1" using Cons.prems by (rule inFlightInv_loadAsyncName)
  note ih = Cons.IH [OF inv1]
  have pre: "prefix (operations ?s1) (operations ?s2)" by (rule loadEntries_prefix)
  have head: "(\<exists>r. fst (loadAsyncName name src s) = Resolved r) \<or>
      (\<exists>p. fst (loadAsyncName name src s) = Follows p \<and> pending ?s2 p \<and>
           op_name (operations ?s2 ! p) = name)"
    using loadAsyncName_member [OF Cons.prems, of name src] pending_prefix [OF _ pre] by fastforce
  show ?case
    unfolding e loadEntries_Cons fst_conv snd_conv
  proof (intro conjI allI impI)
    show "length (fst (loadAsyncName name src s) # fst (loadEntries rest ?s1)) = length ((name, src) # rest)"
      using ih by simp
  next
    fix i assume i: "i < length ((name, src) # rest)"
    show "(\<exists>r. (fst (loadAsyncName name src s) # fst (loadEntries rest ?s1)) ! i = Resolved r) \<or>
      (\<exists>p. (fst (loadAsyncName name src s) # fst (loadEntries rest ?s1)) ! i = Follows p \<and>
           pending ?s2 p \<and> op_name (operations ?s2 ! p) = fst (((name, src) # rest) ! i))"
    proof (cases i)
      case 0
      with head show ?thesis by simp
    next
      case (Suc j)
      with i have "j < length rest" by simp
      with ih Suc show ?thesis by simp
    qed
  qed
qed

text \<open>A \<open>Promise.all\<close> keeps its members, and its state once it has one.\<close>

lemma settleOperation_aggregate:
  assumes "k < length (aggregates s)"
  shows "k < length (aggregates (settleOperation p r s)) \<and>
    members (aggregates (settleOperation p r s) ! k) = members (aggregates s ! k) \<and>
    (\<forall>x. agg_state (aggregates s ! k) = Some x
         \<longrightarrow> agg_state (aggregates (settleOperation p r s) ! k) = Some x)"
  using refreshList_rest [OF assms, of _ "[]"] assms
  by (simp add: aggregates_settleOperation refreshList_length)

lemma newPromiseAll_aggregate:
  assumes "k < length (aggregates s)"
  shows "k < length (aggregates (snd (newPromiseAll prs s))) \<and>
    aggregates (snd (newPromiseAll prs s)) ! k = aggregates s ! k"
  using assms by (simp add: nth_append)

lemma loadAsyncMap_aggregate:
  assumes "k < length (aggregates s)"
  shows "k < length (aggregates (snd (loadAsyncMap fontMap s))) \<and>
    aggregates (snd (loadAsyncMap fontMap s)) ! k = aggregates s ! k"
  using assms newPromiseAll_aggregate [of k "snd (loadEntries fontMap s)" "fst (loadEntries fontMap s)"]
  by (simp add: loadAsyncMap_eq loadEntries_grows(2))

lemma loadMaps_aggregate:
  "k < length (aggregates s) \<Longrightarrow>
   k < length (aggregates (snd (loadMaps fontMaps s))) \<and>
   aggregates (snd (loadMaps fontMaps s)) ! k = aggregates s ! k"
proof (induction fontMaps arbitrary: s)
  case Nil
  then show ?case by simp
next
  case (Cons fontMap rest)
  from loadAsyncMap_aggregate [OF Cons.prems, of fontMap]
    Cons.IH [of "snd (loadAsyncMap fontMap s)"]
  show ?case unfolding loadMaps_Cons snd_conv by simp
qed

lemma loadAsync_aggregate:
  assumes "k < length (aggregates s)"
  shows "k < length (aggregates (snd (loadAsync nm src s))) \<and>
    aggregates (snd (loadAsync nm src s)) ! k = aggregates s ! k"
proof (cases nm)
  case (Name name)
  with assms show ?thesis by (simp add: loadAsync_def loadAsyncName_grows(2))
next
  case (FontMap fontMap)
  with loadAsyncMap_aggregate [OF assms] show ?thesis by (simp add: loadAsync_def)
next
  case (FontMaps fontMaps)
  let ?s0 = "s\<lparr>console := console s @ [ArrayDeprecated]\<rparr>"
  from assms have "k < length (aggregates ?s0)" by simp
  from loadMaps_aggregate [OF this, of fontMaps]
    newPromiseAll_aggregate [of k "snd (loadMaps fontMaps ?s0)" "fst (loadMaps fontMaps ?s0)"]
  show ?thesis using FontMaps by (simp add: loadAsync_def loadAsyncArray_eq)
qed

lemma loadAsync_FontMap:
  "loadAsync (FontMap fontMap) src s = (All (length (aggregates s)), snd (loadAsyncMap fontMap s))"
  "length (aggregates s) < length (aggregates (snd (loadAsyncMap fontMap s)))"
  "members (aggregates (snd (loadAsyncMap fontMap s)) ! length (aggregates s))
     = fst (loadEntries fontMap s)"
  "operations (snd (loadAsyncMap fontMap s)) = operations (snd (loadEntries fontMap s))"
proof -
  have agE: "aggregates (snd (loadEntries fontMap s)) = aggregates s" by (rule loadEntries_grows(2))
  show "loadAsync (FontMap fontMap) src s = (All (length (aggregates s)), snd (loadAsyncMap fontMap s))"
    by (simp add: loadAsync_def loadAsyncMap_eq prod_eq_iff agE)
  show "length (aggregates s) < length (aggregates (snd (loadAsyncMap fontMap s)))"
    by (simp add: loadAsyncMap_eq agE)
  show "members (aggregates (snd (loadAsyncMap fontMap s)) ! length (aggregates s))
     = fst (loadEntries fontMap s)"
    by (simp add: loadAsyncMap_eq agE [symmetric])
  show "operations (snd (loadAsyncMap fontMap s)) = operations (snd (loadEntries fontMap s))"
    by (simp add: loadAsyncMap_eq)
qed

lemma step_aggregate:
  assumes "step env e s = Some s'" "k < length (aggregates s)"
  shows "k < length (aggregates s') \<and>
    members (aggregates s' ! k) = members (aggregates s ! k) \<and>
    (\<forall>r. agg_state (aggregates s ! k) = Some r \<longrightarrow> agg_state (aggregates s' ! k) = Some r)"
proof (cases e)
  case (CallLoadAsync nm src)
  with assms(1) have s': "s' = snd (loadAsync nm src s)" by (simp add: step_def)
  with loadAsync_aggregate [OF assms(2), of nm src] show ?thesis by simp
next
  case (CallProcessFontFamily name)
  with assms show ?thesis by (auto simp: step_def)
next
  case (DownloadSettles p x)
  with assms(1) have s': "s' = downloadSettled env p x s" by (auto simp: step_def split: if_splits)
  from downloadSettled_shape [of env p x s] show ?thesis
  proof (elim disjE exE)
    fix err assume "downloadSettled env p x s = settleOperation p (Rejected err) s"
    with s' settleOperation_aggregate [OF assms(2)] show ?thesis by simp
  next
    fix a assume "downloadSettled env p x s = advanced env p a s"
    with s' assms(2) show ?thesis by (simp add: advanced_def)
  qed
next
  case (NativeSettles p y)
  with assms(1) have s': "s' = nativeSettled p y s" by (auto simp: step_def split: if_splits)
  show ?thesis
  proof (cases y)
    case None
    let ?s0 = "s\<lparr>loaded := (loaded s)(op_name (operations s ! p) \<mapsto> True)\<rparr>"
    from assms(2) have "k < length (aggregates ?s0)" by simp
    from settleOperation_aggregate [OF this, of p Fulfilled] None s' show ?thesis
      by (simp add: nativeSettled_def)
  next
    case (Some err)
    with s' settleOperation_aggregate [OF assms(2)] show ?thesis by (simp add: nativeSettled_def)
  qed
qed

lemma run_aggregate:
  "run env es s = Some s' \<Longrightarrow> k < length (aggregates s) \<Longrightarrow>
   k < length (aggregates s') \<and> members (aggregates s' ! k) = members (aggregates s ! k) \<and>
   (\<forall>r. agg_state (aggregates s ! k) = Some r \<longrightarrow> agg_state (aggregates s' ! k) = Some r)"
proof (induction es arbitrary: s)
  case Nil
  then show ?case by simp
next
  case (Cons e es)
  from Cons.prems(1) obtain s1 where s1: "step env e s = Some s1" and r: "run env es s1 = Some s'"
    by (auto split: option.splits)
  from step_aggregate [OF s1 Cons.prems(2)] Cons.IH [OF r, of ] show ?case by simp
qed

text \<open>
  What the state of a \<open>Promise.all\<close> says about its members, in a reachable state.
\<close>

lemma aggregate_outcome:
  assumes "reachable env s" "k < length (aggregates s)"
  shows "outcome s (All k) = Some Fulfilled \<longleftrightarrow>
           (\<forall>m \<in> set (members (aggregates s ! k)). outcome s m = Some Fulfilled)"
    and "outcome s (All k) = Some (Rejected e)
           \<Longrightarrow> \<exists>m \<in> set (members (aggregates s ! k)). outcome s m = Some (Rejected e)"
    and "m \<in> set (members (aggregates s ! k)) \<Longrightarrow> outcome s m = Some (Rejected e)
           \<Longrightarrow> \<exists>e'. outcome s (All k) = Some (Rejected e')"
proof -
  let ?a = "aggregates s ! k"
  from assms(1) have "aggregatesInv s" using reachable_registryInv by (simp add: registryInv_def)
  with assms(2) have inv: "aggregateInv s k ?a" by (simp add: aggregatesInv_def)
  have o: "outcome s (All k) = agg_state ?a" using assms(2) by simp
  from inv have
    none: "agg_state ?a = None \<Longrightarrow> promiseAll (map (outcome s) (members ?a)) = None" and
    ful: "agg_state ?a = Some Fulfilled \<Longrightarrow> \<forall>m \<in> set (members ?a). outcome s m = Some Fulfilled" and
    rej: "\<And>x. agg_state ?a = Some (Rejected x) \<Longrightarrow> \<exists>m \<in> set (members ?a). outcome s m = Some (Rejected x)"
    unfolding aggregateInv_def by blast+
  show "outcome s (All k) = Some Fulfilled \<longleftrightarrow> (\<forall>m \<in> set (members ?a). outcome s m = Some Fulfilled)"
  proof
    assume "outcome s (All k) = Some Fulfilled"
    then show "\<forall>m \<in> set (members ?a). outcome s m = Some Fulfilled" using ful by (simp add: o)
  next
    assume all: "\<forall>m \<in> set (members ?a). outcome s m = Some Fulfilled"
    then have pa: "promiseAll (map (outcome s) (members ?a)) = Some Fulfilled"
      by (simp add: promiseAll_Fulfilled)
    show "outcome s (All k) = Some Fulfilled"
    proof (cases "agg_state ?a")
      case None
      with none pa show ?thesis by simp
    next
      case (Some r)
      show ?thesis
      proof (cases r)
        case Fulfilled
        with Some show ?thesis by (simp add: o)
      next
        case (Rejected x)
        with Some rej all show ?thesis by fastforce
      qed
    qed
  qed
  show "outcome s (All k) = Some (Rejected e)
           \<Longrightarrow> \<exists>m \<in> set (members ?a). outcome s m = Some (Rejected e)"
    using rej by (simp add: o)
  show "\<exists>e'. outcome s (All k) = Some (Rejected e')"
    if m: "m \<in> set (members ?a)" and r: "outcome s m = Some (Rejected e)"
  proof (cases "agg_state ?a")
    case None
    from m r have "Some (Rejected e) \<in> set (map (outcome s) (members ?a))" by force
    then obtain e' where "promiseAll (map (outcome s) (members ?a)) = Some (Rejected e')"
      using promiseAll_rejects by blast
    with none [OF None] show ?thesis by simp
  next
    case (Some x)
    show ?thesis
    proof (cases x)
      case Fulfilled
      with Some ful m r show ?thesis by fastforce
    next
      case (Rejected e')
      with Some show ?thesis by (simp add: o)
    qed
  qed
qed

subsection \<open>The first rejection\<close>

lemma isRejected_iff: "isRejected r \<longleftrightarrow> (\<exists>e. r = Some (Rejected e))"
  by (cases r rule: isRejected.cases) simp_all

lemma promiseAll_first_rejection:
  assumes "i < length rs" "rs ! i = Some (Rejected e)" "\<forall>j < i. \<forall>x. rs ! j \<noteq> Some (Rejected x)"
  shows "promiseAll rs = Some (Rejected e)"
proof -
  have "\<exists>i < length rs. isRejected (rs ! i) \<and> Some (Rejected e) = rs ! i \<and> (\<forall>j < i. \<not> isRejected (rs ! j))"
    using assms by (intro exI [of _ i]) (simp add: isRejected_iff)
  then have "find isRejected rs = Some (Some (Rejected e))" by (simp only: find_Some_iff)
  then show ?thesis by (simp add: promiseAll_def)
qed

text \<open>The promises of a font map are those of the single-name calls, made in turn.\<close>

lemma loadEntries_nth:
  "i < length fontMap \<Longrightarrow>
   fst (loadEntries fontMap s) ! i =
     fst (loadAsyncName (fst (fontMap ! i)) (snd (fontMap ! i)) (snd (loadEntries (take i fontMap) s)))"
proof (induction fontMap arbitrary: i s)
  case Nil
  then show ?case by simp
next
  case (Cons entry rest)
  obtain name src where e: "entry = (name, src)" by (cases entry)
  show ?case
  proof (cases i)
    case 0
    then show ?thesis unfolding e loadEntries_Cons by simp
  next
    case (Suc j)
    with Cons.prems have j: "j < length rest" by simp
    have tk: "take i ((name, src) # rest) = (name, src) # take j rest" using Suc by simp
    from Cons.IH [OF j, of "snd (loadAsyncName name src s)"] Suc show ?thesis
      unfolding e tk loadEntries_Cons by simp
  qed
qed

text \<open>The new \<open>Promise.all\<close> of a font map is in the state its members decide.\<close>

lemma loadAsyncMap_outcome:
  assumes "inFlightInv s"
  shows "outcome (snd (loadAsyncMap fontMap s)) (All (length (aggregates s))) =
     promiseAll (map (outcome (snd (loadAsyncMap fontMap s))) (fst (loadEntries fontMap s)))"
proof -
  let ?sE = "snd (loadEntries fontMap s)"
  let ?prs = "fst (loadEntries fontMap s)"
  let ?s1 = "snd (loadAsyncMap fontMap s)"
  have agE: "aggregates ?sE = aggregates s" by (rule loadEntries_grows(2))
  have ags: "aggregates ?s1 =
      aggregates s @ [\<lparr>members = ?prs, agg_state = promiseAll (map (outcome ?sE) ?prs)\<rparr>]"
    by (simp add: loadAsyncMap_eq agE)
  have ops: "operations ?s1 = operations ?sE" by (simp add: loadAsyncMap_eq)
  have same: "outcome ?s1 m = outcome ?sE m" if "m \<in> set ?prs" for m
  proof -
    from that obtain i where "i < length ?prs" "?prs ! i = m" by (auto simp: in_set_conv_nth)
    with loadEntries_members [OF assms, of fontMap]
    have "(\<exists>r. m = Resolved r) \<or> (\<exists>p. m = Follows p)" by auto
    then show ?thesis by (auto simp: outcome_def ops)
  qed
  have "map (outcome ?s1) ?prs = map (outcome ?sE) ?prs" by (rule map_ext) (simp add: same)
  then have "promiseAll (map (outcome ?s1) ?prs) = promiseAll (map (outcome ?sE) ?prs)"
    by (rule arg_cong)
  moreover have "outcome ?s1 (All (length (aggregates s))) = promiseAll (map (outcome ?sE) ?prs)"
    by (simp add: outcome_def ags)
  ultimately show ?thesis by simp
qed

text \<open>A step settles at most one operation.\<close>

lemma step_settles_one:
  assumes "step env e s = Some s'" "pending s p" "\<not> pending s' p" "pending s q" "\<not> pending s' q"
  shows "p = q"
proof -
  from assms(2,4) have p: "p < length (operations s)" and q: "q < length (operations s)"
    by (simp_all add: pending_def)
  have "operations s' ! p \<noteq> operations s ! p"
    using assms(2,3) step_operation(1) [OF assms(1) p] by (auto simp: pending_def)
  with step_operation(2) [OF assms(1) p]
  have ep: "(\<exists>x. e = DownloadSettles p x) \<or> (\<exists>y. e = NativeSettles p y)" by blast
  have "operations s' ! q \<noteq> operations s ! q"
    using assms(4,5) step_operation(1) [OF assms(1) q] by (auto simp: pending_def)
  with step_operation(2) [OF assms(1) q]
  have eq: "(\<exists>x. e = DownloadSettles q x) \<or> (\<exists>y. e = NativeSettles q y)" by blast
  from ep eq show ?thesis by auto
qed

text \<open>
  A promise that a step rejects is rejected with the reason of the operation that
  the step has settled.
\<close>

lemma new_rejection:
  assumes "reachable env s" "step env e s = Some s'"
  shows "k < length (aggregates s) \<Longrightarrow> \<forall>x. outcome s (All k) \<noteq> Some (Rejected x)
     \<Longrightarrow> outcome s' (All k) = Some (Rejected err)
     \<Longrightarrow> \<exists>p. pending s p \<and> outcome s' (Follows p) = Some (Rejected err)"
proof (induction k rule: less_induct)
  case (less k)
  have r': "reachable env s'" using assms by (rule reachable_step)
  from step_aggregate [OF assms(2) less.prems(1)]
  have k': "k < length (aggregates s')"
    and mem: "members (aggregates s' ! k) = members (aggregates s ! k)" by simp_all
  from aggregate_outcome(2) [OF r' k' less.prems(3)] mem
  obtain m where m: "m \<in> set (members (aggregates s ! k))"
    and om: "outcome s' m = Some (Rejected err)" by auto
  have nm: "\<forall>x. outcome s m \<noteq> Some (Rejected x)"
    using aggregate_outcome(3) [OF assms(1) less.prems(1) m] less.prems(2) by blast
  from assms(1) have "aggregatesInv s" using reachable_registryInv by (simp add: registryInv_def)
  with less.prems(1) have "aggregateInv s k (aggregates s ! k)" by (simp add: aggregatesInv_def)
  with m have ok: "memberOK s k m" by (simp add: aggregateInv_def)
  show ?case
  proof (cases m)
    case (Resolved r)
    with om nm show ?thesis by simp
  next
    case (Follows q)
    with ok have q: "q < length (operations s)" by simp
    have "pending s q"
    proof (cases "op_stage (operations s ! q)")
      case (Settled r)
      from step_settled_stays [OF assms(2) q Settled]
      have "outcome s' (Follows q) = Some r" by (simp add: stageOutcome_def)
      with om Follows have "r = Rejected err" by simp
      with Settled q nm Follows show ?thesis by (simp add: stageOutcome_def)
    qed (simp_all add: pending_def q stageOutcome_def)
    with om Follows show ?thesis by blast
  next
    case (All j)
    with ok have j: "j < k" by simp
    with less.prems(1) have jl: "j < length (aggregates s)" by simp
    from less.IH [OF j jl] nm om All show ?thesis by simp
  qed
qed

lemma member_new_rejection:
  assumes "reachable env s" "step env e s = Some s'" "k < length (aggregates s)"
    and "m \<in> set (members (aggregates s ! k))"
    and "\<forall>x. outcome s m \<noteq> Some (Rejected x)" "outcome s' m = Some (Rejected err)"
  shows "\<exists>p. pending s p \<and> \<not> pending s' p \<and> outcome s' (Follows p) = Some (Rejected err)"
proof -
  from assms(1) have "aggregatesInv s" using reachable_registryInv by (simp add: registryInv_def)
  with assms(3) have "aggregateInv s k (aggregates s ! k)" by (simp add: aggregatesInv_def)
  with assms(4) have ok: "memberOK s k m" by (simp add: aggregateInv_def)
  have "\<exists>p. pending s p \<and> outcome s' (Follows p) = Some (Rejected err)"
  proof (cases m)
    case (Resolved r)
    with assms(5,6) show ?thesis by simp
  next
    case (Follows q)
    with ok have q: "q < length (operations s)" by simp
    have "pending s q"
    proof (cases "op_stage (operations s ! q)")
      case (Settled r)
      from step_settled_stays [OF assms(2) q Settled]
      have "outcome s' (Follows q) = Some r" by (simp add: stageOutcome_def)
      with assms(6) Follows have "r = Rejected err" by simp
      with Settled q assms(5) Follows show ?thesis by (simp add: stageOutcome_def)
    qed (simp_all add: pending_def q stageOutcome_def)
    with assms(6) Follows show ?thesis by blast
  next
    case (All j)
    with ok have "j < k" by simp
    with assms(3) have jl: "j < length (aggregates s)" by simp
    from new_rejection [OF assms(1,2) jl] assms(5,6) All show ?thesis by simp
  qed
  then obtain p where p: "pending s p" and o: "outcome s' (Follows p) = Some (Rejected err)" by blast
  from o have "\<not> pending s' p" by (auto simp: pending_def outcome_def split: if_splits)
  with p o show ?thesis by blast
qed

text \<open>
  The step that rejects a \<open>Promise.all\<close>: no member was rejected before it, and the
  members it has rejected all have the reason that the \<open>Promise.all\<close> takes.
\<close>

lemma first_rejection_step:
  assumes "reachable env s" "step env e s = Some s'" "k < length (aggregates s)"
    and "outcome s (All k) = None" "outcome s' (All k) = Some (Rejected err)"
  shows "\<forall>m \<in> set (members (aggregates s ! k)). \<forall>x. outcome s m \<noteq> Some (Rejected x)"
    and "\<exists>m \<in> set (members (aggregates s ! k)). outcome s' m = Some (Rejected err)"
    and "\<forall>m \<in> set (members (aggregates s ! k)). \<forall>x. outcome s' m = Some (Rejected x) \<longrightarrow> x = err"
proof -
  have r': "reachable env s'" using assms(1,2) by (rule reachable_step)
  from step_aggregate [OF assms(2,3)]
  have k': "k < length (aggregates s')"
    and mem: "members (aggregates s' ! k) = members (aggregates s ! k)" by simp_all
  show none: "\<forall>m \<in> set (members (aggregates s ! k)). \<forall>x. outcome s m \<noteq> Some (Rejected x)"
    using aggregate_outcome(3) [OF assms(1,3)] assms(4) by fastforce
  show some: "\<exists>m \<in> set (members (aggregates s ! k)). outcome s' m = Some (Rejected err)"
    using aggregate_outcome(2) [OF r' k' assms(5)] mem by simp
  then obtain m0 where m0: "m0 \<in> set (members (aggregates s ! k))"
    and o0: "outcome s' m0 = Some (Rejected err)" by blast
  from none m0 have n0: "\<forall>x. outcome s m0 \<noteq> Some (Rejected x)" by blast
  from member_new_rejection [OF assms(1,2,3) m0 n0 o0]
  obtain p0 where p0: "pending s p0" "\<not> pending s' p0" "outcome s' (Follows p0) = Some (Rejected err)"
    by blast
  show "\<forall>m \<in> set (members (aggregates s ! k)). \<forall>x. outcome s' m = Some (Rejected x) \<longrightarrow> x = err"
  proof (intro ballI allI impI)
    fix m x assume m: "m \<in> set (members (aggregates s ! k))" and o: "outcome s' m = Some (Rejected x)"
    from none m have n: "\<forall>x. outcome s m \<noteq> Some (Rejected x)" by blast
    from member_new_rejection [OF assms(1,2,3) m n o]
    obtain p where p: "pending s p" "\<not> pending s' p" "outcome s' (Follows p) = Some (Rejected x)"
      by blast
    from step_settles_one [OF assms(2) p0(1,2) p(1,2)] have "p0 = p" .
    with p0(3) p(3) show "x = err" by simp
  qed
qed

subsection \<open>The promise of a call and the loaded set\<close>

lemma promiseOf_cong:
  "loaded s' = loaded s \<Longrightarrow> operations s' = operations s \<Longrightarrow> promiseOf s' name m = promiseOf s name m"
  by (cases m) simp_all

lemma promiseOf_loadAsyncName:
  assumes "inFlightInv s" "name \<notin> set objectPrototypeKeys"
  shows "promiseOf (snd (loadAsyncName name src s)) name (fst (loadAsyncName name src s))"
  using loadAsyncName_member [OF assms(1), of name src]
proof (elim disjE exE conjE)
  fix p
  assume "fst (loadAsyncName name src s) = Follows p"
    and "pending (snd (loadAsyncName name src s)) p"
    and "op_name (operations (snd (loadAsyncName name src s)) ! p) = name"
  then show ?thesis by (simp add: pending_def)
next
  fix r assume r: "fst (loadAsyncName name src s) = Resolved r"
  show ?thesis
  proof (cases "truthyProperty (\<lambda>b. b) (loaded s) name")
    case True
    with assms(2) have "loaded s name = Some True"
      by (cases "loaded s name") (simp_all add: truthyProperty_def getProperty_def)
    then show ?thesis by (simp add: r)
  next
    case notLoaded: False
    have "r \<noteq> Fulfilled"
    proof (cases "getProperty (loadPromises s) name")
      case (Own p)
      with notLoaded r show ?thesis by (simp add: loadAsyncName_def)
    next
      case Inherited
      with assms(2) show ?thesis by (simp add: getProperty_def split: option.splits)
    next
      case Absent
      with notLoaded have fresh: "freshName s name" by (simp add: freshName_def)
      show ?thesis
      proof (cases "invariantSource src (noSourceMessage name)")
        case (Inl e)
        with r show ?thesis by (auto simp: loadAsyncName_rejected [OF fresh])
      next
        case (Inr fs)
        show ?thesis
        proof (cases "getAssetForSource fs")
          case (Inl e)
          with r show ?thesis by (auto simp: loadAsyncName_no_asset [OF fresh Inr])
        next
          case asset: (Inr a)
          with r show ?thesis by (auto simp: loadAsyncName_started [OF fresh Inr])
        qed
      qed
    qed
    then show ?thesis by (simp add: r)
  qed
qed

lemma step_loaded_True:
  assumes "step env e s = Some s'" "loaded s n = Some True"
  shows "loaded s' n = Some True"
  using step_loaded [OF assms(1)] assms(2) by auto

lemma promiseOf_step:
  assumes "step env e s = Some s'" "promiseOf s name m"
  shows "promiseOf s' name m"
proof (cases m)
  case (Resolved r)
  with assms(2) step_loaded_True [OF assms(1)] show ?thesis by auto
next
  case (Follows p)
  with assms(2) step_operation(1) [OF assms(1)] step_op_name [OF assms(1)] show ?thesis by auto
next
  case (All k)
  with assms(2) show ?thesis by simp
qed

lemma promiseOf_run:
  "run env es s = Some s' \<Longrightarrow> promiseOf s name m \<Longrightarrow> promiseOf s' name m"
proof (induction es arbitrary: s)
  case Nil
  then show ?case by simp
next
  case (Cons e es)
  from Cons.prems(1) obtain s1 where s1: "step env e s = Some s1" and r: "run env es s1 = Some s'"
    by (auto split: option.splits)
  from s1 Cons.prems(2) have "promiseOf s1 name m" by (rule promiseOf_step)
  with r show ?case by (rule Cons.IH)
qed

text \<open>A fulfilled promise of a call for a name means that the name is loaded.\<close>

lemma promiseOf_loaded:
  assumes "reachable env s" "promiseOf s name m" "outcome s m = Some Fulfilled"
  shows "isLoaded s name = Inr True"
proof -
  have inv: "inFlightInv s" using assms(1) by (rule reachable_inFlightInv)
  have "loaded s name = Some True"
  proof (cases m)
    case (Resolved r)
    with assms(2,3) show ?thesis by simp
  next
    case (Follows p)
    with assms(2) have p: "p < length (operations s)" and n: "op_name (operations s ! p) = name"
      by simp_all
    from assms(3) Follows p have "op_stage (operations s ! p) = Settled Fulfilled"
      by (simp add: stageOutcome_def split: stage.splits)
    with inFlightInvD(8) [OF inv p] n show ?thesis by simp
  next
    case (All k)
    with assms(2) show ?thesis by simp
  qed
  then show ?thesis by (simp add: isLoaded_reachable(1) [OF assms(1)])
qed

text \<open>Nothing cancels a pending operation: its own settlements can still complete it.\<close>

lemma native_success_loads:
  assumes "reachable env s" "atStage s p AwaitNative"
  shows "\<exists>s'. run env [NativeSettles p None] s = Some s' \<and>
    outcome s' (Follows p) = Some Fulfilled \<and> isLoaded s' (op_name (operations s ! p)) = Inr True"
proof -
  let ?s' = "nativeSettled p None s"
  have st: "step env (NativeSettles p None) s = Some ?s'" using assms(2) by (simp add: step_def)
  have r': "reachable env ?s'" using assms(1) st by (rule reachable_step)
  from assms(2) have p: "p < length (operations s)" by (simp add: atStage_def)
  have "outcome ?s' (Follows p) = Some Fulfilled"
    using p by (simp add: nativeSettled_def stageOutcome_def)
  moreover have "loaded ?s' (op_name (operations s ! p)) \<noteq> None"
    by (simp add: nativeSettled_def)
  then have "isLoaded ?s' (op_name (operations s ! p)) = Inr True"
    by (simp add: isLoaded_reachable(1) [OF r'])
  ultimately show ?thesis using st by simp
qed

lemma download_success_loads:
  assumes "reachable env s" "atStage s p AwaitDownload" "downloaded a"
  shows "\<exists>s'. run env [DownloadSettles p (Inr a), NativeSettles p None] s = Some s' \<and>
    outcome s' (Follows p) = Some Fulfilled \<and> isLoaded s' (op_name (operations s ! p)) = Inr True"
proof -
  let ?s1 = "downloadSettled env p (Inr a) s"
  have st: "step env (DownloadSettles p (Inr a)) s = Some ?s1" using assms(2) by (simp add: step_def)
  have r1: "reachable env ?s1" using assms(1) st by (rule reachable_step)
  from assms(2) have p: "p < length (operations s)" by (simp add: atStage_def)
  have eq: "?s1 = advanced env p a s"
    using assms(3) by (simp add: downloadSettled_def loadSingleFontAsync_resumed_def advanced_def)
  have st1: "atStage ?s1 p AwaitNative" using p by (simp add: eq advanced_def atStage_def)
  have nm: "op_name (operations ?s1 ! p) = op_name (operations s ! p)"
    using p by (simp add: eq advanced_def)
  from native_success_loads [OF r1 st1] st show ?thesis by (simp add: nm)
qed

subsection \<open>The run of the font map\<close>

lemma abLoading_eq:
  "abLoading = \<lparr>loaded = Map.empty, loadPromises = [''A'' \<mapsto> 0, ''B'' \<mapsto> 1],
     operations = [\<lparr>op_name = ''A'', op_asset = FromModule 1, op_stage = AwaitDownload\<rparr>,
                   \<lparr>op_name = ''B'', op_asset = FromModule 2, op_stage = AwaitDownload\<rparr>],
     aggregates = [\<lparr>members = [Follows 0, Follows 1], agg_state = None\<rparr>],
     collaboratorCalls = [(0, DownloadAsync (FromModule 1)), (1, DownloadAsync (FromModule 2))],
     console = []\<rparr>"
  by (simp add: abLoading_def initial_def model_defs)

lemma abcLoading_eq:
  "abcLoading = \<lparr>loaded = Map.empty, loadPromises = [''A'' \<mapsto> 0],
     operations = [\<lparr>op_name = ''A'', op_asset = FromModule 1, op_stage = AwaitDownload\<rparr>],
     aggregates = [\<lparr>members = [Follows 0, Resolved (Rejected (Error remoteUriMessage)),
                       Resolved (Rejected (InvariantViolation (formatWithoutArguments (noSourceMessage ''C''))))],
                     agg_state = Some (Rejected (Error remoteUriMessage))\<rparr>],
     collaboratorCalls = [(0, DownloadAsync (FromModule 1))],
     console = []\<rparr>"
  by (simp add: abcLoading_def initial_def loadAsync_def loadAsyncName_def loadAsyncMap_def
        newPromiseAll_def truthyProperty_def getProperty_def objectPrototypeKeys_def
        invariantSource_def truthySource_def getAssetForSource_def startOperation_def
        loadSingleFontAsync_def promiseAll_def outcome_def stageOutcome_def)

lemma abFailedB_eq:
  "abFailedB = \<lparr>loaded = Map.empty, loadPromises = [''A'' \<mapsto> 0],
     operations = [\<lparr>op_name = ''A'', op_asset = FromModule 1, op_stage = AwaitDownload\<rparr>,
                   \<lparr>op_name = ''B'', op_asset = FromModule 2,
                     op_stage = Settled (Rejected (Error (downloadFailedMessage ''B'')))\<rparr>],
     aggregates = [\<lparr>members = [Follows 0, Follows 1],
                     agg_state = Some (Rejected (Error (downloadFailedMessage ''B'')))\<rparr>],
     collaboratorCalls = [(0, DownloadAsync (FromModule 1)), (1, DownloadAsync (FromModule 2))],
     console = []\<rparr>"
  by (simp add: abFailedB_def abLoading_eq noFile_def downloadSettled_def
        loadSingleFontAsync_resumed_def settleOperation_def refresh_def promiseAll_def
        outcome_def stageOutcome_def)

lemma abRegisteringA_eq:
  "abRegisteringA = \<lparr>loaded = Map.empty, loadPromises = [''A'' \<mapsto> 0],
     operations = [\<lparr>op_name = ''A'', op_asset = FromModule 1, op_stage = AwaitNative\<rparr>,
                   \<lparr>op_name = ''B'', op_asset = FromModule 2,
                     op_stage = Settled (Rejected (Error (downloadFailedMessage ''B'')))\<rparr>],
     aggregates = [\<lparr>members = [Follows 0, Follows 1],
                     agg_state = Some (Rejected (Error (downloadFailedMessage ''B'')))\<rparr>],
     collaboratorCalls = [(0, DownloadAsync (FromModule 1)), (1, DownloadAsync (FromModule 2)),
                          (0, NativeLoadAsync ''abc-A'' (Some ''file:///Foo.ttf''))],
     console = []\<rparr>"
  by (simp add: abRegisteringA_def abFailedB_eq fooFile_def exampleEnv_def downloadSettled_def
        loadSingleFontAsync_resumed_def getNativeFontName_def)

lemma abDone_eq:
  "abDone = \<lparr>loaded = [''A'' \<mapsto> True], loadPromises = Map.empty,
     operations = [\<lparr>op_name = ''A'', op_asset = FromModule 1, op_stage = Settled Fulfilled\<rparr>,
                   \<lparr>op_name = ''B'', op_asset = FromModule 2,
                     op_stage = Settled (Rejected (Error (downloadFailedMessage ''B'')))\<rparr>],
     aggregates = [\<lparr>members = [Follows 0, Follows 1],
                     agg_state = Some (Rejected (Error (downloadFailedMessage ''B'')))\<rparr>],
     collaboratorCalls = [(0, DownloadAsync (FromModule 1)), (1, DownloadAsync (FromModule 2)),
                          (0, NativeLoadAsync ''abc-A'' (Some ''file:///Foo.ttf''))],
     console = []\<rparr>"
  by (simp add: abDone_def abRegisteringA_eq nativeSettled_def settleOperation_def refresh_def)

lemma ab_steps:
  "step exampleEnv (DownloadSettles 1 (Inr noFile)) abLoading = Some abFailedB"
  "step exampleEnv (DownloadSettles 0 (Inr fooFile)) abFailedB = Some abRegisteringA"
  "step exampleEnv (NativeSettles 0 None) abRegisteringA = Some abDone"
proof -
  have "atStage abLoading 1 AwaitDownload" by (simp add: atStage_def abLoading_eq)
  then show "step exampleEnv (DownloadSettles 1 (Inr noFile)) abLoading = Some abFailedB"
    by (simp add: step_def abFailedB_def)
  have "atStage abFailedB 0 AwaitDownload" by (simp add: atStage_def abFailedB_eq)
  then show "step exampleEnv (DownloadSettles 0 (Inr fooFile)) abFailedB = Some abRegisteringA"
    by (simp add: step_def abRegisteringA_def)
  have "atStage abRegisteringA 0 AwaitNative" by (simp add: atStage_def abRegisteringA_eq)
  then show "step exampleEnv (NativeSettles 0 None) abRegisteringA = Some abDone"
    by (simp add: step_def abDone_def)
qed

lemma ab_run:
  "run exampleEnv [DownloadSettles 1 (Inr noFile)] abLoading = Some abFailedB"
  "run exampleEnv [DownloadSettles 1 (Inr noFile), DownloadSettles 0 (Inr fooFile), NativeSettles 0 None]
     abLoading = Some abDone"
  using ab_steps by simp_all

section \<open>The claims\<close>

text \<open>
  Claim C1, in a reachable state.
  (1) While a load of a name is in flight (\<open>isLoading\<close> is true), \<open>loadPromises\<close> holds
  one pending operation \<open>p\<close> for the name; every further call of \<open>loadAsync\<close> with that
  name, whatever its source, returns the promise of \<open>p\<close> and leaves the whole state as
  it is, so it starts no operation and calls no collaborator; no other operation for
  the name is pending; and every operation ever created has requested exactly one
  download and has called the native loader at most once.
  (2) A call with a name that passes both checks and with a valid source starts the
  operation \<open>p\<close>: it requests the one download and returns the promise of \<open>p\<close>. After
  every run of events from there, \<open>p\<close> has requested that one download and has called
  the native loader at most once, exactly once if it is fulfilled. As long as the first
  caller's promise is pending the name is in flight, and a second call with the name,
  whatever its source, returns the promise of \<open>p\<close> too and changes nothing; from then
  on, after every run of events, the promises of the two callers are in the same
  state: both pending, both fulfilled, or both rejected with the same reason.
\<close>

theorem loadAsync_joins_operation_in_flight:
  assumes "reachable env s"
  shows "(isLoading s name = Inr True \<longrightarrow>
      (\<exists>p. loadPromises s name = Some p \<and> pending s p \<and> outcome s (Follows p) = None
        \<and> (\<forall>src. loadAsync (Name name) src s = (Follows p, s))
        \<and> (\<forall>src es s'. run env es s = Some s'
              \<longrightarrow> outcome s' (fst (loadAsync (Name name) src s)) = outcome s' (Follows p))
        \<and> (\<forall>q. pending s q \<and> op_name (operations s ! q) = name \<longrightarrow> q = p)
        \<and> (\<forall>q < length (operations s). downloadsBy s q = 1 \<and> nativeLoadsBy s q \<le> 1)))
   \<and> (\<forall>fs a. freshName s name \<and> truthySource fs \<and> getAssetForSource fs = Inr a \<longrightarrow>
        (\<exists>p s1. loadAsync (Name name) (Some fs) s = (Follows p, s1)
          \<and> p = length (operations s)
          \<and> collaboratorCalls s1 = collaboratorCalls s @ [(p, DownloadAsync a)]
          \<and> isLoading s1 name = Inr True
          \<and> outcome s1 (Follows p) = None
          \<and> (\<forall>es s2. run env es s1 = Some s2 \<longrightarrow>
                callsOf s2 p \<noteq> [] \<and> hd (callsOf s2 p) = DownloadAsync a
              \<and> downloadsBy s2 p = 1 \<and> nativeLoadsBy s2 p \<le> 1
              \<and> (outcome s2 (Follows p) = Some Fulfilled \<longrightarrow> nativeLoadsBy s2 p = 1)
              \<and> (outcome s2 (fst (loadAsync (Name name) (Some fs) s)) = None \<longrightarrow>
                    isLoading s2 name = Inr True
                  \<and> (\<forall>src. loadAsync (Name name) src s2 = (Follows p, s2))
                  \<and> (\<forall>q. pending s2 q \<and> op_name (operations s2 ! q) = name \<longrightarrow> q = p)
                  \<and> (\<forall>src es' s3. run env es' (snd (loadAsync (Name name) src s2)) = Some s3 \<longrightarrow>
                        outcome s3 (fst (loadAsync (Name name) src s2))
                          = outcome s3 (fst (loadAsync (Name name) (Some fs) s)))))))"
proof (intro conjI impI allI)
  assume loading: "isLoading s name = Inr True"
  have inv: "inFlightInv s" using assms(1) by (rule reachable_inFlightInv)
  from loading obtain p where lp: "loadPromises s name = Some p"
    by (auto simp: isLoaded_reachable(2) [OF assms(1)])
  have pd: "pending s p" using inFlightInvD(1) [OF inv lp] .
  then have out: "outcome s (Follows p) = None" by (simp add: pending_def)
  have join: "\<forall>src. loadAsync (Name name) src s = (Follows p, s)"
    using loadAsyncName_inFlight [OF in_flight_not_loaded(3) [OF inv lp] lp]
    by (simp add: loadAsync_def)
  have uniq: "\<forall>q. pending s q \<and> op_name (operations s ! q) = name \<longrightarrow> q = p"
    using inFlightInvD(3) [OF inv] lp by fastforce
  have calls: "\<forall>q < length (operations s). downloadsBy s q = 1 \<and> nativeLoadsBy s q \<le> 1"
  proof (intro allI impI)
    fix q assume q: "q < length (operations s)"
    have "callsInv env s" using assms(1) reachable_registryInv by (simp add: registryInv_def)
    then have "expectedCalls env (operations s ! q) (callsOf s q)" using q by (rule callsInvD(1))
    then have "callsOf s q = [DownloadAsync (op_asset (operations s ! q))] \<or>
      (\<exists>u. callsOf s q = [DownloadAsync (op_asset (operations s ! q)),
              NativeLoadAsync (getNativeFontName env (op_name (operations s ! q))) u])"
      by (rule expectedCalls_shape)
    then show "downloadsBy s q = 1 \<and> nativeLoadsBy s q \<le> 1"
      by (auto simp: downloadsBy_def nativeLoadsBy_def)
  qed
  have together: "\<forall>src es s'. run env es s = Some s'
          \<longrightarrow> outcome s' (fst (loadAsync (Name name) src s)) = outcome s' (Follows p)"
    using join by simp
  from lp pd out join together uniq calls
  show "\<exists>p. loadPromises s name = Some p \<and> pending s p \<and> outcome s (Follows p) = None
        \<and> (\<forall>src. loadAsync (Name name) src s = (Follows p, s))
        \<and> (\<forall>src es s'. run env es s = Some s'
              \<longrightarrow> outcome s' (fst (loadAsync (Name name) src s)) = outcome s' (Follows p))
        \<and> (\<forall>q. pending s q \<and> op_name (operations s ! q) = name \<longrightarrow> q = p)
        \<and> (\<forall>q < length (operations s). downloadsBy s q = 1 \<and> nativeLoadsBy s q \<le> 1)"
    by blast
next
  fix fs a
  assume "freshName s name \<and> truthySource fs \<and> getAssetForSource fs = Inr a"
  then have fresh: "freshName s name" and fs: "truthySource fs" and a: "getAssetForSource fs = Inr a"
    by blast+
  let ?p = "length (operations s)"
  let ?s1 = "snd (startOperation name a s)"
  have eq: "loadAsync (Name name) (Some fs) s = (Follows ?p, ?s1)"
    using loadAsyncName_started [OF fresh invariantSource_truthy [OF fs] a]
    by (simp add: loadAsync_def)
  have r1: "reachable env ?s1" using reachable_loadAsync [OF assms, of "Name name" "Some fs"]
    by (simp add: eq)
  have calls1: "collaboratorCalls ?s1 = collaboratorCalls s @ [(?p, DownloadAsync a)]"
    by (simp add: startOperation_fields)
  have lp1: "loadPromises ?s1 name = Some ?p" by (simp add: startOperation_fields)
  then have loading1: "isLoading ?s1 name = Inr True" by (simp add: isLoaded_reachable(2) [OF r1])
  have op1: "operations ?s1 ! ?p = \<lparr>op_name = name, op_asset = a, op_stage = AwaitDownload\<rparr>"
    and len1: "?p < length (operations ?s1)"
    by (simp_all add: startOperation_fields)
  then have out1: "outcome ?s1 (Follows ?p) = None" by (simp add: stageOutcome_def)
  have po1: "promiseOf ?s1 name (Follows ?p)" using op1 len1 by simp
  have later: "callsOf s2 ?p \<noteq> [] \<and> hd (callsOf s2 ?p) = DownloadAsync a
              \<and> downloadsBy s2 ?p = 1 \<and> nativeLoadsBy s2 ?p \<le> 1
              \<and> (outcome s2 (Follows ?p) = Some Fulfilled \<longrightarrow> nativeLoadsBy s2 ?p = 1)
              \<and> (outcome s2 (fst (loadAsync (Name name) (Some fs) s)) = None \<longrightarrow>
                    isLoading s2 name = Inr True
                  \<and> (\<forall>src. loadAsync (Name name) src s2 = (Follows ?p, s2))
                  \<and> (\<forall>q. pending s2 q \<and> op_name (operations s2 ! q) = name \<longrightarrow> q = ?p)
                  \<and> (\<forall>src es' s3. run env es' (snd (loadAsync (Name name) src s2)) = Some s3 \<longrightarrow>
                        outcome s3 (fst (loadAsync (Name name) src s2))
                          = outcome s3 (fst (loadAsync (Name name) (Some fs) s))))"
    if run: "run env es ?s1 = Some s2" for es s2
  proof -
    have r2: "reachable env s2" using r1 run by (rule reachable_run)
    then have inv2: "inFlightInv s2" by (rule reachable_inFlightInv)
    from promiseOf_run [OF run po1]
    have p2: "?p < length (operations s2)" and nm2: "op_name (operations s2 ! ?p) = name"
      by simp_all
    have asset2: "op_asset (operations s2 ! ?p) = a"
      using run_op_asset [OF run len1] op1 by simp
    have "callsInv env s2" using r2 reachable_registryInv by (simp add: registryInv_def)
    then have ex: "expectedCalls env (operations s2 ! ?p) (callsOf s2 ?p)"
      using p2 by (rule callsInvD(1))
    then have shape: "callsOf s2 ?p = [DownloadAsync a] \<or>
      (\<exists>u. callsOf s2 ?p = [DownloadAsync a, NativeLoadAsync (getNativeFontName env name) u])"
      using expectedCalls_shape [OF ex] by (simp add: asset2 nm2)
    then have c1: "callsOf s2 ?p \<noteq> [] \<and> hd (callsOf s2 ?p) = DownloadAsync a
        \<and> downloadsBy s2 ?p = 1 \<and> nativeLoadsBy s2 ?p \<le> 1"
      by (auto simp: downloadsBy_def nativeLoadsBy_def)
    have c2: "outcome s2 (Follows ?p) = Some Fulfilled \<longrightarrow> nativeLoadsBy s2 ?p = 1"
    proof
      assume "outcome s2 (Follows ?p) = Some Fulfilled"
      with p2 have "op_stage (operations s2 ! ?p) = Settled Fulfilled"
        by (simp add: stageOutcome_def split: stage.splits)
      with ex have "\<exists>u. callsOf s2 ?p =
          [DownloadAsync (op_asset (operations s2 ! ?p)),
           NativeLoadAsync (getNativeFontName env (op_name (operations s2 ! ?p))) u]"
        by (simp add: expectedCalls_def Let_def)
      then show "nativeLoadsBy s2 ?p = 1" by (auto simp: nativeLoadsBy_def)
    qed
    have c3: "isLoading s2 name = Inr True
                  \<and> (\<forall>src. loadAsync (Name name) src s2 = (Follows ?p, s2))
                  \<and> (\<forall>q. pending s2 q \<and> op_name (operations s2 ! q) = name \<longrightarrow> q = ?p)
                  \<and> (\<forall>src es' s3. run env es' (snd (loadAsync (Name name) src s2)) = Some s3 \<longrightarrow>
                        outcome s3 (fst (loadAsync (Name name) src s2))
                          = outcome s3 (fst (loadAsync (Name name) (Some fs) s)))"
      if "outcome s2 (fst (loadAsync (Name name) (Some fs) s)) = None"
    proof -
      from that p2 have pd2: "pending s2 ?p" by (simp add: eq pending_def)
      from inFlightInvD(3) [OF inv2 pd2] have lp2: "loadPromises s2 name = Some ?p"
        by (simp add: nm2)
      then have l2: "isLoading s2 name = Inr True" by (simp add: isLoaded_reachable(2) [OF r2])
      have join: "\<forall>src. loadAsync (Name name) src s2 = (Follows ?p, s2)"
        using loadAsyncName_inFlight [OF in_flight_not_loaded(3) [OF inv2 lp2] lp2]
        by (simp add: loadAsync_def)
      have uniq: "\<forall>q. pending s2 q \<and> op_name (operations s2 ! q) = name \<longrightarrow> q = ?p"
        using inFlightInvD(3) [OF inv2] lp2 by fastforce
      from l2 join uniq show ?thesis by (simp add: eq)
    qed
    from c1 c2 c3 show ?thesis by blast
  qed
  from eq calls1 loading1 out1 later
  show "\<exists>p s1. loadAsync (Name name) (Some fs) s = (Follows p, s1)
          \<and> p = length (operations s)
          \<and> collaboratorCalls s1 = collaboratorCalls s @ [(p, DownloadAsync a)]
          \<and> isLoading s1 name = Inr True
          \<and> outcome s1 (Follows p) = None
          \<and> (\<forall>es s2. run env es s1 = Some s2 \<longrightarrow>
                callsOf s2 p \<noteq> [] \<and> hd (callsOf s2 p) = DownloadAsync a
              \<and> downloadsBy s2 p = 1 \<and> nativeLoadsBy s2 p \<le> 1
              \<and> (outcome s2 (Follows p) = Some Fulfilled \<longrightarrow> nativeLoadsBy s2 p = 1)
              \<and> (outcome s2 (fst (loadAsync (Name name) (Some fs) s)) = None \<longrightarrow>
                    isLoading s2 name = Inr True
                  \<and> (\<forall>src. loadAsync (Name name) src s2 = (Follows p, s2))
                  \<and> (\<forall>q. pending s2 q \<and> op_name (operations s2 ! q) = name \<longrightarrow> q = p)
                  \<and> (\<forall>src es' s3. run env es' (snd (loadAsync (Name name) src s2)) = Some s3 \<longrightarrow>
                        outcome s3 (fst (loadAsync (Name name) src s2))
                          = outcome s3 (fst (loadAsync (Name name) (Some fs) s)))))"
    by (intro exI [of _ ?p] exI [of _ ?s1]) simp
qed

text \<open>
  In the example run, the first call for \<open>Foo\<close> starts operation 0 and a second call
  joins it while it downloads and while it waits for the native loader; when the
  download fails, the promises of both callers are rejected with the same error.
\<close>

theorem loadAsync_joins_operation_in_flight_witness:
  "loadAsync (Name ''Foo'') (Some (Module 1)) initial = (Follows 0, fooLoading) \<and>
   collaboratorCalls fooLoading = [(0, DownloadAsync (FromModule 1))] \<and>
   isLoading fooLoading ''Foo'' = Inr True \<and>
   loadAsync (Name ''Foo'') (Some (Module 2)) fooLoading = (Follows 0, fooLoading) \<and>
   loadAsync (Name ''Foo'') None fooRegistering = (Follows 0, fooRegistering) \<and>
   downloadsBy fooRegistering 0 = 1 \<and> nativeLoadsBy fooRegistering 0 = 1 \<and>
   outcome fooFailed (fst (loadAsync (Name ''Foo'') (Some (Module 1)) initial))
     = Some (Rejected (Error (downloadFailedMessage ''Foo''))) \<and>
   outcome fooFailed (fst (loadAsync (Name ''Foo'') (Some (Module 2)) fooLoading))
     = Some (Rejected (Error (downloadFailedMessage ''Foo'')))"
proof -
  have fresh: "freshName initial ''Foo''"
    by (rule freshName_initial) (simp add: objectPrototypeKeys_def)
  have src: "truthySource (Module 1)" "getAssetForSource (Module 1) = Inr (FromModule 1)"
    by (simp_all add: truthySource_def getAssetForSource_def)
  let ?pr0 = "fst (loadAsync (Name ''Foo'') (Some (Module 1)) initial)"
  note start = loadAsync_joins_operation_in_flight [OF reachable_initial [of exampleEnv],
      of "''Foo''", THEN conjunct2, THEN spec, of "Module 1", THEN spec, of "FromModule 1", THEN mp]
  from start fresh src
  obtain p s1 where
    eq: "loadAsync (Name ''Foo'') (Some (Module 1)) initial = (Follows p, s1)" and
    p: "p = length (operations initial)" and
    calls: "collaboratorCalls s1 = collaboratorCalls initial @ [(p, DownloadAsync (FromModule 1))]" and
    loading: "isLoading s1 ''Foo'' = Inr True" and
    all: "\<forall>es s2. run exampleEnv es s1 = Some s2 \<longrightarrow>
                callsOf s2 p \<noteq> [] \<and> hd (callsOf s2 p) = DownloadAsync (FromModule 1)
              \<and> downloadsBy s2 p = 1 \<and> nativeLoadsBy s2 p \<le> 1
              \<and> (outcome s2 (Follows p) = Some Fulfilled \<longrightarrow> nativeLoadsBy s2 p = 1)
              \<and> (outcome s2 ?pr0 = None \<longrightarrow>
                    isLoading s2 ''Foo'' = Inr True
                  \<and> (\<forall>src. loadAsync (Name ''Foo'') src s2 = (Follows p, s2))
                  \<and> (\<forall>q. pending s2 q \<and> op_name (operations s2 ! q) = ''Foo'' \<longrightarrow> q = p)
                  \<and> (\<forall>src es' s3. run exampleEnv es' (snd (loadAsync (Name ''Foo'') src s2)) = Some s3 \<longrightarrow>
                        outcome s3 (fst (loadAsync (Name ''Foo'') src s2)) = outcome s3 ?pr0))"
    by blast
  have later: "downloadsBy s2 p = 1 \<and> (outcome s2 ?pr0 = None \<longrightarrow>
                    (\<forall>src. loadAsync (Name ''Foo'') src s2 = (Follows p, s2))
                  \<and> (\<forall>src es' s3. run exampleEnv es' (snd (loadAsync (Name ''Foo'') src s2)) = Some s3 \<longrightarrow>
                        outcome s3 (fst (loadAsync (Name ''Foo'') src s2)) = outcome s3 ?pr0))"
    if "run exampleEnv es s1 = Some s2" for es s2
    using all [THEN spec, of es, THEN spec, of s2] that by blast
  have p0: "p = 0" using p by (simp add: initial_def)
  from eq have s1: "s1 = fooLoading" by (simp add: fooLoading_def)
  have pr0: "?pr0 = Follows 0" using eq by (simp add: p0)
  have run0: "run exampleEnv [] fooLoading = Some fooLoading" by simp
  have out0: "outcome fooLoading ?pr0 = None" by (simp add: pr0 fooLoading_eq stageOutcome_def)
  have out1: "outcome fooRegistering ?pr0 = None" by (simp add: pr0 fooRegistering_eq stageOutcome_def)
  have run1: "run exampleEnv [DownloadSettles 0 (Inr fooFile)] fooLoading = Some fooRegistering"
    by (simp add: foo_steps)
  from later [of "[]" fooLoading] run0 out0
  have join0: "\<forall>src. loadAsync (Name ''Foo'') src fooLoading = (Follows 0, fooLoading)"
    and tog0: "\<forall>src es' s3. run exampleEnv es' (snd (loadAsync (Name ''Foo'') src fooLoading)) = Some s3 \<longrightarrow>
                 outcome s3 (fst (loadAsync (Name ''Foo'') src fooLoading)) = outcome s3 ?pr0"
    unfolding s1 p0 by blast+
  from later [of "[DownloadSettles 0 (Inr fooFile)]" fooRegistering] run1 out1
  have join1: "\<forall>src. loadAsync (Name ''Foo'') src fooRegistering = (Follows 0, fooRegistering)"
    and d1: "downloadsBy fooRegistering 0 = 1"
    unfolding s1 p0 by blast+
  have n1: "nativeLoadsBy fooRegistering 0 = 1"
    by (simp add: nativeLoadsBy_def callsOf_def fooRegistering_eq)
  have failed: "run exampleEnv [DownloadSettles 0 (Inr noFile)] (snd (loadAsync (Name ''Foo'') (Some (Module 2)) fooLoading))
      = Some fooFailed"
    using fooFailed_step join0 by simp
  have o0: "outcome fooFailed ?pr0 = Some (Rejected (Error (downloadFailedMessage ''Foo'')))"
    by (simp add: pr0 fooFailed_eq stageOutcome_def)
  from tog0 failed
  have "outcome fooFailed (fst (loadAsync (Name ''Foo'') (Some (Module 2)) fooLoading))
      = outcome fooFailed ?pr0"
    by blast
  with o0 have o1: "outcome fooFailed (fst (loadAsync (Name ''Foo'') (Some (Module 2)) fooLoading))
      = Some (Rejected (Error (downloadFailedMessage ''Foo'')))"
    by simp
  have a: "loadAsync (Name ''Foo'') (Some (Module 1)) initial = (Follows 0, fooLoading)"
    using eq by (simp add: s1 p0)
  have b: "collaboratorCalls fooLoading = [(0, DownloadAsync (FromModule 1))]"
    using calls by (simp add: s1 p0 initial_def)
  from a b loading join0 join1 d1 n1 o0 o1 show ?thesis unfolding s1 by simp
qed

text \<open>
  Claim C2. Let a name be in flight with operation \<open>p\<close>, in a reachable state. Then
  \<open>p\<close> waits for its download or for the native loader, and every settlement it can
  see is a step that ends it as follows:
  (1) the download promise rejects, or the asset has \<open>downloaded\<close> false after the
  download: the operation is rejected (with the download's reason, or with the error
  that names the font), the name has left \<open>loadPromises\<close> and is not loaded;
  (2) the native loader rejects: the operation is rejected with that reason, the name
  has left \<open>loadPromises\<close> and is not loaded;
  (3) the native loader succeeds: the operation is fulfilled, the name has left
  \<open>loadPromises\<close> and is loaded;
  (4) after a step that leaves the operation pending the name is still in flight, with
  the same operation;
  (5) after a step that settles the operation, by whichever settlement and with
  whichever outcome \<open>r\<close>, \<open>isLoading\<close> is false and \<open>isLoaded\<close> is true exactly when the
  operation was fulfilled; and after a failure a call of \<open>loadAsync\<close> with a valid source
  (truthy, and not a remote URI) starts a fresh load: a new operation, a new download
  request, and the name in flight again.
\<close>

theorem settled_operation_leaves_loadPromises:
  assumes "reachable env s" "loadPromises s name = Some p"
  shows "(atStage s p AwaitDownload \<or> atStage s p AwaitNative)
    \<and> (atStage s p AwaitDownload \<longrightarrow>
         (\<forall>err. \<exists>s'. step env (DownloadSettles p (Inl err)) s = Some s' \<and>
            outcome s' (Follows p) = Some (Rejected err) \<and>
            isLoading s' name = Inr False \<and> isLoaded s' name = Inr False) \<and>
         (\<forall>f. \<not> downloaded f \<longrightarrow>
            (\<exists>s'. step env (DownloadSettles p (Inr f)) s = Some s' \<and>
               outcome s' (Follows p) = Some (Rejected (Error (downloadFailedMessage name))) \<and>
               isLoading s' name = Inr False \<and> isLoaded s' name = Inr False)))
    \<and> (atStage s p AwaitNative \<longrightarrow>
         (\<forall>err. \<exists>s'. step env (NativeSettles p (Some err)) s = Some s' \<and>
            outcome s' (Follows p) = Some (Rejected err) \<and>
            isLoading s' name = Inr False \<and> isLoaded s' name = Inr False) \<and>
         (\<exists>s'. step env (NativeSettles p None) s = Some s' \<and>
            outcome s' (Follows p) = Some Fulfilled \<and>
            isLoading s' name = Inr False \<and> isLoaded s' name = Inr True))
    \<and> (\<forall>e s'. step env e s = Some s' \<and> outcome s' (Follows p) = None \<longrightarrow>
          loadPromises s' name = Some p \<and> isLoading s' name = Inr True)
    \<and> (\<forall>e s' r. step env e s = Some s' \<and> outcome s' (Follows p) = Some r \<longrightarrow>
          isLoading s' name = Inr False \<and> isLoaded s' name = Inr (r = Fulfilled) \<and>
          (r \<noteq> Fulfilled \<longrightarrow>
             (\<forall>fs a. truthySource fs \<and> getAssetForSource fs = Inr a \<longrightarrow>
                fst (loadAsync (Name name) (Some fs) s') = Follows (length (operations s')) \<and>
                operations (snd (loadAsync (Name name) (Some fs) s')) =
                  operations s' @ [\<lparr>op_name = name, op_asset = a, op_stage = AwaitDownload\<rparr>] \<and>
                collaboratorCalls (snd (loadAsync (Name name) (Some fs) s')) =
                  collaboratorCalls s' @ [(length (operations s'), DownloadAsync a)] \<and>
                isLoading (snd (loadAsync (Name name) (Some fs) s')) name = Inr True)))"
proof -
  have inv: "inFlightInv s" using assms(1) by (rule reachable_inFlightInv)
  have pd: "pending s p" and nm: "op_name (operations s ! p) = name"
    using inFlightInvD(1,2) [OF inv assms(2)] by blast+
  then have p: "p < length (operations s)" by (simp add: pending_def)
  note nl = in_flight_not_loaded [OF inv assms(2)]
  have settled: "isLoading s' name = Inr False \<and> isLoaded s' name = Inr (r = Fulfilled) \<and>
          (r \<noteq> Fulfilled \<longrightarrow>
             (\<forall>fs a. truthySource fs \<and> getAssetForSource fs = Inr a \<longrightarrow>
                fst (loadAsync (Name name) (Some fs) s') = Follows (length (operations s')) \<and>
                operations (snd (loadAsync (Name name) (Some fs) s')) =
                  operations s' @ [\<lparr>op_name = name, op_asset = a, op_stage = AwaitDownload\<rparr>] \<and>
                collaboratorCalls (snd (loadAsync (Name name) (Some fs) s')) =
                  collaboratorCalls s' @ [(length (operations s'), DownloadAsync a)] \<and>
                isLoading (snd (loadAsync (Name name) (Some fs) s')) name = Inr True))"
    if st: "step env e s = Some s'" and out: "outcome s' (Follows p) = Some r" for e s' r
  proof -
    have p': "p < length (operations s')" using step_operation(1) [OF st p] .
    with out have st': "op_stage (operations s' ! p) = Settled r"
      by (simp add: stageOutcome_def split: stage.splits)
    then have npd: "\<not> pending s' p" by (simp add: pending_def stageOutcome_def)
    from step_settles [OF st pd npd] obtain r0 where
      ops: "operations s' = (operations s)[p := (operations s ! p)\<lparr>op_stage := Settled r0\<rparr>]" and
      lp: "loadPromises s' = (loadPromises s)(name := None)" and
      ld: "loaded s' = (if r0 = Fulfilled then (loaded s)(name \<mapsto> True) else loaded s)"
      unfolding nm by blast
    from ops st' p have r0: "r0 = r" by simp
    have r': "reachable env s'" using assms(1) st by (rule reachable_step)
    have loading: "isLoading s' name = Inr False" by (simp add: isLoaded_reachable(2) [OF r'] lp)
    have isl: "isLoaded s' name = Inr (r = Fulfilled)"
      using nl(1) by (auto simp: isLoaded_reachable(1) [OF r'] ld r0)
    have again: "r \<noteq> Fulfilled \<longrightarrow>
         (\<forall>fs a. truthySource fs \<and> getAssetForSource fs = Inr a \<longrightarrow>
            fst (loadAsync (Name name) (Some fs) s') = Follows (length (operations s')) \<and>
            operations (snd (loadAsync (Name name) (Some fs) s')) =
              operations s' @ [\<lparr>op_name = name, op_asset = a, op_stage = AwaitDownload\<rparr>] \<and>
            collaboratorCalls (snd (loadAsync (Name name) (Some fs) s')) =
              collaboratorCalls s' @ [(length (operations s'), DownloadAsync a)] \<and>
            isLoading (snd (loadAsync (Name name) (Some fs) s')) name = Inr True)"
    proof (intro impI allI, elim conjE)
      fix fs a
      assume failed: "r \<noteq> Fulfilled" and fs: "truthySource fs" and a: "getAssetForSource fs = Inr a"
      from failed have "loaded s' = loaded s" by (simp add: ld r0)
      with nl(1,2) have fresh: "freshName s' name" by (simp add: freshName_iff lp)
      have eq: "loadAsync (Name name) (Some fs) s' =
          (Follows (length (operations s')), snd (startOperation name a s'))"
        using loadAsyncName_started [OF fresh invariantSource_truthy [OF fs] a]
        by (simp add: loadAsync_def)
      have r'': "reachable env (snd (loadAsync (Name name) (Some fs) s'))"
        using r' by (rule reachable_loadAsync)
      show "fst (loadAsync (Name name) (Some fs) s') = Follows (length (operations s')) \<and>
            operations (snd (loadAsync (Name name) (Some fs) s')) =
              operations s' @ [\<lparr>op_name = name, op_asset = a, op_stage = AwaitDownload\<rparr>] \<and>
            collaboratorCalls (snd (loadAsync (Name name) (Some fs) s')) =
              collaboratorCalls s' @ [(length (operations s'), DownloadAsync a)] \<and>
            isLoading (snd (loadAsync (Name name) (Some fs) s')) name = Inr True"
        unfolding isLoaded_reachable(2) [OF r'']
        by (simp add: eq startOperation_fields)
    qed
    from loading isl again show ?thesis by blast
  qed
  have rejects: "outcome (settleOperation p (Rejected err) s) (Follows p) = Some (Rejected err)" for err
    using p by (simp add: stageOutcome_def)
  have waits: "atStage s p AwaitDownload \<or> atStage s p AwaitNative"
    using pd by (cases "op_stage (operations s ! p)") (simp_all add: pending_def atStage_def stageOutcome_def)
  have download: "(\<forall>err. \<exists>s'. step env (DownloadSettles p (Inl err)) s = Some s' \<and>
            outcome s' (Follows p) = Some (Rejected err) \<and>
            isLoading s' name = Inr False \<and> isLoaded s' name = Inr False) \<and>
         (\<forall>f. \<not> downloaded f \<longrightarrow>
            (\<exists>s'. step env (DownloadSettles p (Inr f)) s = Some s' \<and>
               outcome s' (Follows p) = Some (Rejected (Error (downloadFailedMessage name))) \<and>
               isLoading s' name = Inr False \<and> isLoaded s' name = Inr False))"
    if at: "atStage s p AwaitDownload"
  proof (intro conjI allI impI)
    fix err
    let ?s' = "settleOperation p (Rejected err) s"
    have st: "step env (DownloadSettles p (Inl err)) s = Some ?s'"
      using at by (simp add: step_def downloadSettled_def loadSingleFontAsync_resumed_def)
    from settled [OF st rejects] st rejects
    show "\<exists>s'. step env (DownloadSettles p (Inl err)) s = Some s' \<and>
            outcome s' (Follows p) = Some (Rejected err) \<and>
            isLoading s' name = Inr False \<and> isLoaded s' name = Inr False"
      by simp
  next
    fix f :: assetFields assume f: "\<not> downloaded f"
    let ?s' = "settleOperation p (Rejected (Error (downloadFailedMessage name))) s"
    have st: "step env (DownloadSettles p (Inr f)) s = Some ?s'"
      using at f by (simp add: step_def downloadSettled_def loadSingleFontAsync_resumed_def nm)
    from settled [OF st rejects] st rejects
    show "\<exists>s'. step env (DownloadSettles p (Inr f)) s = Some s' \<and>
               outcome s' (Follows p) = Some (Rejected (Error (downloadFailedMessage name))) \<and>
               isLoading s' name = Inr False \<and> isLoaded s' name = Inr False"
      by simp
  qed
  have native: "(\<forall>err. \<exists>s'. step env (NativeSettles p (Some err)) s = Some s' \<and>
            outcome s' (Follows p) = Some (Rejected err) \<and>
            isLoading s' name = Inr False \<and> isLoaded s' name = Inr False) \<and>
         (\<exists>s'. step env (NativeSettles p None) s = Some s' \<and>
            outcome s' (Follows p) = Some Fulfilled \<and>
            isLoading s' name = Inr False \<and> isLoaded s' name = Inr True)"
    if at: "atStage s p AwaitNative"
  proof (intro conjI allI)
    fix err
    let ?s' = "settleOperation p (Rejected err) s"
    have st: "step env (NativeSettles p (Some err)) s = Some ?s'"
      using at by (simp add: step_def nativeSettled_def)
    from settled [OF st rejects] st rejects
    show "\<exists>s'. step env (NativeSettles p (Some err)) s = Some s' \<and>
            outcome s' (Follows p) = Some (Rejected err) \<and>
            isLoading s' name = Inr False \<and> isLoaded s' name = Inr False"
      by simp
  next
    let ?s' = "nativeSettled p None s"
    have st: "step env (NativeSettles p None) s = Some ?s'"
      using at by (simp add: step_def)
    have out: "outcome ?s' (Follows p) = Some Fulfilled"
      using p by (simp add: nativeSettled_def stageOutcome_def)
    from settled [OF st out] st out
    show "\<exists>s'. step env (NativeSettles p None) s = Some s' \<and>
            outcome s' (Follows p) = Some Fulfilled \<and>
            isLoading s' name = Inr False \<and> isLoaded s' name = Inr True"
      by simp
  qed
  have stays: "loadPromises s' name = Some p \<and> isLoading s' name = Inr True"
    if st: "step env e s = Some s'" and out: "outcome s' (Follows p) = None" for e s'
  proof -
    have p': "p < length (operations s')" using step_operation(1) [OF st p] .
    with out have "pending s' p" by (simp add: pending_def)
    moreover have r': "reachable env s'" using assms(1) st by (rule reachable_step)
    then have "inFlightInv s'" by (rule reachable_inFlightInv)
    ultimately have "loadPromises s' (op_name (operations s' ! p)) = Some p"
      by (rule inFlightInvD(3) [rotated])
    then have "loadPromises s' name = Some p" by (simp add: step_op_name [OF st p] nm)
    then show ?thesis by (simp add: isLoaded_reachable(2) [OF r'])
  qed
  from waits download native stays settled show ?thesis by blast
qed

text \<open>
  In the example run: the download of \<open>Foo\<close> leaves \<open>downloaded\<close> false, and \<open>Foo\<close> is
  requested again; in another run the native loader rejects, and in a third it
  succeeds.
\<close>

theorem settled_operation_leaves_loadPromises_witness:
  "loadPromises fooLoading ''Foo'' = Some 0 \<and>
   step exampleEnv (DownloadSettles 0 (Inr noFile)) fooLoading = Some fooFailed \<and>
   outcome fooFailed (Follows 0) = Some (Rejected (Error (downloadFailedMessage ''Foo''))) \<and>
   isLoading fooFailed ''Foo'' = Inr False \<and>
   fst (loadAsync (Name ''Foo'') (Some (Module 1)) fooFailed) = Follows 1 \<and>
   isLoading (snd (loadAsync (Name ''Foo'') (Some (Module 1)) fooFailed)) ''Foo'' = Inr True \<and>
   loadPromises fooRegistering ''Foo'' = Some 0 \<and>
   (\<exists>s'. step exampleEnv (NativeSettles 0 (Some (Rejection ''no such file''))) fooRegistering = Some s' \<and>
      outcome s' (Follows 0) = Some (Rejected (Rejection ''no such file'')) \<and>
      isLoading s' ''Foo'' = Inr False \<and> isLoaded s' ''Foo'' = Inr False) \<and>
   (\<exists>s'. step exampleEnv (NativeSettles 0 None) fooRegistering = Some s' \<and>
      outcome s' (Follows 0) = Some Fulfilled \<and>
      isLoading s' ''Foo'' = Inr False \<and> isLoaded s' ''Foo'' = Inr True)"
proof -
  have lp: "loadPromises fooLoading ''Foo'' = Some 0" by (simp add: fooLoading_eq)
  have lp2: "loadPromises fooRegistering ''Foo'' = Some 0" by (simp add: fooRegistering_eq)
  have at2: "atStage fooRegistering 0 AwaitNative" by (simp add: fooRegistering_eq atStage_def)
  have out: "outcome fooFailed (Follows 0) = Some (Rejected (Error (downloadFailedMessage ''Foo'')))"
    by (simp add: fooFailed_eq stageOutcome_def)
  note download = settled_operation_leaves_loadPromises [OF foo_reachable(1) lp]
  note native = settled_operation_leaves_loadPromises [OF foo_reachable(2) lp2]
  from download fooFailed_step out
  have a: "isLoading fooFailed ''Foo'' = Inr False"
    and "truthySource (Module 1) \<and> getAssetForSource (Module 1) = Inr (FromModule 1) \<longrightarrow>
          fst (loadAsync (Name ''Foo'') (Some (Module 1)) fooFailed) = Follows (length (operations fooFailed)) \<and>
          isLoading (snd (loadAsync (Name ''Foo'') (Some (Module 1)) fooFailed)) ''Foo'' = Inr True"
    by blast+
  then have b: "fst (loadAsync (Name ''Foo'') (Some (Module 1)) fooFailed) = Follows 1"
      "isLoading (snd (loadAsync (Name ''Foo'') (Some (Module 1)) fooFailed)) ''Foo'' = Inr True"
    by (simp_all add: truthySource_def getAssetForSource_def fooFailed_eq)
  from native at2
  have c: "\<exists>s'. step exampleEnv (NativeSettles 0 (Some (Rejection ''no such file''))) fooRegistering = Some s' \<and>
      outcome s' (Follows 0) = Some (Rejected (Rejection ''no such file'')) \<and>
      isLoading s' ''Foo'' = Inr False \<and> isLoaded s' ''Foo'' = Inr False"
    and d: "\<exists>s'. step exampleEnv (NativeSettles 0 None) fooRegistering = Some s' \<and>
      outcome s' (Follows 0) = Some Fulfilled \<and>
      isLoading s' ''Foo'' = Inr False \<and> isLoaded s' ''Foo'' = Inr True"
    by blast+
  from lp fooFailed_step out a b lp2 c d show ?thesis by blast
qed

text \<open>
  Claim C3. In a reachable state, a step that takes a name into the loaded set is the
  success of the native loader for an operation of that name, and the native loader
  had been called for that operation under the session's name for the font; and a
  name that is loaded is loaded after every further run of events.
\<close>

theorem loaded_grows_only_on_native_success:
  assumes "reachable env s"
  shows "(\<forall>e s' name. step env e s = Some s' \<and> isLoaded s name = Inr False \<and> isLoaded s' name = Inr True
            \<longrightarrow> (\<exists>p u. e = NativeSettles p None \<and> op_name (operations s ! p) = name \<and>
                  (p, NativeLoadAsync (getNativeFontName env name) u) \<in> set (collaboratorCalls s)))
       \<and> (\<forall>es s' name. run env es s = Some s' \<and> isLoaded s name = Inr True
            \<longrightarrow> isLoaded s' name = Inr True)"
proof (intro conjI allI impI; elim conjE)
  fix e s' name
  assume st: "step env e s = Some s'" and a: "isLoaded s name = Inr False" and b: "isLoaded s' name = Inr True"
  have r': "reachable env s'" using assms st by (rule reachable_step)
  from a have la: "loaded s name = None" by (simp add: isLoaded_reachable [OF assms])
  from b have lb: "loaded s' name \<noteq> None" by (simp add: isLoaded_reachable [OF r'])
  from step_loaded [OF st] la lb obtain p where p: "e = NativeSettles p None" "atStage s p AwaitNative"
    "loaded s' = (loaded s)(op_name (operations s ! p) \<mapsto> True)" by auto
  from p(3) la lb have n: "op_name (operations s ! p) = name" by (auto split: if_splits)
  from native_call_made [OF assms p(2)] n p(1)
  show "\<exists>p u. e = NativeSettles p None \<and> op_name (operations s ! p) = name \<and>
          (p, NativeLoadAsync (getNativeFontName env name) u) \<in> set (collaboratorCalls s)"
    by auto
next
  fix es s' name
  assume r: "run env es s = Some s'" and a: "isLoaded s name = Inr True"
  have r': "reachable env s'" using assms r by (rule reachable_run)
  from a have "loaded s name \<noteq> None" by (simp add: isLoaded_reachable [OF assms])
  with r have "loaded s' name \<noteq> None" by (rule run_loaded_mono)
  then show "isLoaded s' name = Inr True" by (simp add: isLoaded_reachable [OF r'])
qed

text \<open>In the example run: \<open>Foo\<close> becomes loaded, and stays loaded.\<close>

theorem loaded_grows_only_on_native_success_witness:
  "step exampleEnv (NativeSettles 0 None) fooRegistering = Some fooLoaded \<and>
   isLoaded fooRegistering ''Foo'' = Inr False \<and> isLoaded fooLoaded ''Foo'' = Inr True \<and>
   (\<exists>u. (0, NativeLoadAsync (getNativeFontName exampleEnv ''Foo'') u)
           \<in> set (collaboratorCalls fooRegistering)) \<and>
   (\<exists>s'. run exampleEnv
            [CallLoadAsync (Name ''Bar'') (Some (Module 2)), CallProcessFontFamily (Str ''Foo'')]
            fooLoaded = Some s' \<and>
         isLoaded s' ''Foo'' = Inr True)"
proof -
  have l: "isLoaded fooRegistering ''Foo'' = Inr False" "isLoaded fooLoaded ''Foo'' = Inr True"
    by (simp_all add: isLoaded_def hasOwnProperty_def fooRegistering_eq fooLoaded_eq)
  from loaded_grows_only_on_native_success [OF foo_reachable(2)] foo_steps(3) l
  have "\<exists>p u. NativeSettles 0 None = NativeSettles p None \<and>
      op_name (operations fooRegistering ! p) = ''Foo'' \<and>
      (p, NativeLoadAsync (getNativeFontName exampleEnv ''Foo'') u)
        \<in> set (collaboratorCalls fooRegistering)"
    by blast
  then have a: "\<exists>u. (0, NativeLoadAsync (getNativeFontName exampleEnv ''Foo'') u)
           \<in> set (collaboratorCalls fooRegistering)"
    by auto
  obtain s' where r: "run exampleEnv
            [CallLoadAsync (Name ''Bar'') (Some (Module 2)), CallProcessFontFamily (Str ''Foo'')]
            fooLoaded = Some s'"
    by (simp add: step_def)
  from loaded_grows_only_on_native_success [OF foo_reachable(3)] r l(2)
  have "isLoaded s' ''Foo'' = Inr True" by blast
  with r have b: "\<exists>s'. run exampleEnv
            [CallLoadAsync (Name ''Bar'') (Some (Module 2)), CallProcessFontFamily (Str ''Foo'')]
            fooLoaded = Some s' \<and> isLoaded s' ''Foo'' = Inr True"
    by blast
  from foo_steps(3) l a b show ?thesis by blast
qed

text \<open>
  Claim C4. With the session identifier \<open>abc\<close>, and \<open>Foo\<close> not one of the system
  fonts: once the native loader has succeeded for an operation of the name \<open>Foo\<close>,
  then after any further events the operation's promise is fulfilled, \<open>isLoaded\<close> is
  true, \<open>isLoading\<close> is false and \<open>processFontFamily\<close> returns \<open>ExpoFont-abc-Foo\<close>, which
  is \<open>ExpoFont-\<close> followed by the native font name of \<open>Foo\<close>.
\<close>

theorem loaded_Foo_resolves_to_ExpoFont_abc_Foo:
  assumes "reachable env s" "sessionId env = ''abc''" "''Foo'' \<notin> set (systemFonts env)"
    and "op_name (operations s ! p) = ''Foo''"
    and "step env (NativeSettles p None) s = Some s1" "run env es s1 = Some s2"
  shows "outcome s2 (Follows p) = Some Fulfilled \<and>
    isLoaded s2 ''Foo'' = Inr True \<and> isLoading s2 ''Foo'' = Inr False \<and>
    fst (processFontFamily env (Str ''Foo'') s2) = Inr (Str ''ExpoFont-abc-Foo'') \<and>
    ''ExpoFont-abc-Foo'' = ''ExpoFont-'' @ getNativeFontName env ''Foo''"
proof -
  from assms(5) have st: "atStage s p AwaitNative" and s1: "s1 = nativeSettled p None s"
    by (auto simp: step_def split: if_splits)
  from st have p: "p < length (operations s)" by (simp add: atStage_def)
  have r1: "reachable env s1" using assms(1,5) by (rule reachable_step)
  have r2: "reachable env s2" using r1 assms(6) by (rule reachable_run)
  have p1: "p < length (operations s1)" "op_stage (operations s1 ! p) = Settled Fulfilled"
    using p by (simp_all add: s1 nativeSettled_def)
  have "loaded s1 ''Foo'' \<noteq> None" by (simp add: s1 nativeSettled_def assms(4))
  with assms(6) have l2: "loaded s2 ''Foo'' \<noteq> None" by (rule run_loaded_mono)
  have inv2: "inFlightInv s2" using r2 by (rule reachable_inFlightInv)
  have lp2: "loadPromises s2 ''Foo'' = None" using inFlightInvD(7) [OF inv2 l2] .
  have out: "outcome s2 (Follows p) = Some Fulfilled"
    using run_settled_stays [OF assms(6) p1] by (simp add: stageOutcome_def)
  have isl: "isLoaded s2 ''Foo'' = Inr True" using l2 by (simp add: isLoaded_reachable(1) [OF r2])
  have isg: "isLoading s2 ''Foo'' = Inr False" using lp2 by (simp add: isLoaded_reachable(2) [OF r2])
  have res: "fst (processFontFamily env (Str ''Foo'') s2) = Inr (Str ''ExpoFont-abc-Foo'')"
    using assms(2,3) isl by (simp add: processFontFamily_def getNativeFontName_def)
  have "''ExpoFont-abc-Foo'' = ''ExpoFont-'' @ getNativeFontName env ''Foo''"
    using assms(2) by (simp add: getNativeFontName_def)
  with out isl isg res show ?thesis by blast
qed

text \<open>The example run is such a load of \<open>Foo\<close>.\<close>

theorem loaded_Foo_resolves_to_ExpoFont_abc_Foo_witness:
  "sessionId exampleEnv = ''abc'' \<and> ''Foo'' \<notin> set (systemFonts exampleEnv) \<and>
   op_name (operations fooRegistering ! 0) = ''Foo'' \<and>
   step exampleEnv (NativeSettles 0 None) fooRegistering = Some fooLoaded \<and>
   run exampleEnv [CallLoadAsync (Name ''Foo'') None] fooLoaded = Some fooLoaded \<and>
   isLoaded fooLoaded ''Foo'' = Inr True \<and> isLoading fooLoaded ''Foo'' = Inr False \<and>
   fst (processFontFamily exampleEnv (Str ''Foo'') fooLoaded) = Inr (Str ''ExpoFont-abc-Foo'')"
proof -
  have a: "sessionId exampleEnv = ''abc''" "''Foo'' \<notin> set (systemFonts exampleEnv)"
    by (simp_all add: exampleEnv_def)
  have b: "op_name (operations fooRegistering ! 0) = ''Foo''" by (simp add: fooRegistering_eq)
  have c: "run exampleEnv [CallLoadAsync (Name ''Foo'') None] fooLoaded = Some fooLoaded"
    by (simp add: step_def loadAsync_def loadAsyncName_def truthyProperty_def getProperty_def
          fooLoaded_eq)
  from loaded_Foo_resolves_to_ExpoFont_abc_Foo [OF foo_reachable(2) a b foo_steps(3) c]
  show ?thesis using a b c foo_steps(3) by simp
qed

text \<open>
  Claim C5. \<open>toString\<close> is a property of \<open>Object.prototype\<close>, and for every such name,
  in every reachable state and with every source, \<open>loadAsync\<close> returns a fulfilled
  promise and leaves the whole state as it is (no download, no native call, nothing
  added to \<open>loaded\<close>), while \<open>isLoaded\<close> is false for that name.
\<close>

theorem loadAsync_inherited_name_is_no_op:
  assumes "reachable env s"
  shows "''toString'' \<in> set objectPrototypeKeys \<and>
    (\<forall>name \<in> set objectPrototypeKeys. \<forall>src.
       loadAsync (Name name) src s = (Resolved Fulfilled, s) \<and> isLoaded s name = Inr False)"
proof (intro conjI ballI allI)
  show "''toString'' \<in> set objectPrototypeKeys" by (simp add: objectPrototypeKeys_def)
next
  fix name src assume n: "name \<in> set objectPrototypeKeys"
  from assms have inv: "inFlightInv s" using reachable_registryInv by (simp add: registryInv_def)
  from n inv have l: "loaded s name = None" using inFlightInvD(4) by blast
  with n have "truthyProperty (\<lambda>b. b) (loaded s) name"
    by (simp add: truthyProperty_def getProperty_def)
  then show "loadAsync (Name name) src s = (Resolved Fulfilled, s)"
    by (simp add: loadAsync_def loadAsyncName_loaded)
  from l show "isLoaded s name = Inr False" by (simp add: isLoaded_reachable [OF assms])
qed

text \<open>At the start: \<open>toString\<close> with a bundled module as its source.\<close>

theorem loadAsync_inherited_name_is_no_op_witness:
  "loadAsync (Name ''toString'') (Some (Module 7)) initial = (Resolved Fulfilled, initial) \<and>
   isLoaded initial ''toString'' = Inr False \<and>
   collaboratorCalls (snd (loadAsync (Name ''toString'') (Some (Module 7)) initial)) = []"
  using loadAsync_inherited_name_is_no_op [OF reachable_initial [of exampleEnv]]
  by (simp add: initial_def)

text \<open>
  Claim C6. \<open>processFontFamily\<close> returns its argument unchanged, and the state as it
  is, when the argument is null, undefined, the empty string, \<open>System\<close>, a system font,
  a name containing \<open>FuturaBT\<close>, or a name containing the session identifier; this in
  every state, so whatever \<open>loaded\<close> holds.
\<close>

theorem processFontFamily_returns_exempt_name_unchanged:
  assumes "name = Null \<or> name = Undefined \<or>
    (\<exists>n. name = Str n \<and>
       (n = [] \<or> n = ''System'' \<or> n \<in> set (systemFonts env) \<or> str_includes n ''FuturaBT'' \<or>
        str_includes n (sessionId env)))"
  shows "processFontFamily env name s = (Inr name, s)"
  using assms by (auto simp: processFontFamily_def)

text \<open>One example of each kind.\<close>

theorem processFontFamily_returns_exempt_name_unchanged_witness:
  "processFontFamily exampleEnv Undefined initial = (Inr Undefined, initial) \<and>
   processFontFamily exampleEnv (Str []) initial = (Inr (Str []), initial) \<and>
   processFontFamily exampleEnv (Str ''System'') initial = (Inr (Str ''System''), initial) \<and>
   processFontFamily exampleEnv (Str ''Helvetica'') initial = (Inr (Str ''Helvetica''), initial) \<and>
   processFontFamily exampleEnv (Str ''FuturaBT-Book'') initial = (Inr (Str ''FuturaBT-Book''), initial) \<and>
   processFontFamily exampleEnv (Str ''abc-Foo'') initial = (Inr (Str ''abc-Foo''), initial)"
  using processFontFamily_returns_exempt_name_unchanged [of Undefined exampleEnv initial]
    processFontFamily_returns_exempt_name_unchanged [of "Str []" exampleEnv initial]
    processFontFamily_returns_exempt_name_unchanged [of "Str ''System''" exampleEnv initial]
    processFontFamily_returns_exempt_name_unchanged [of "Str ''Helvetica''" exampleEnv initial]
    processFontFamily_returns_exempt_name_unchanged [of "Str ''FuturaBT-Book''" exampleEnv initial]
    processFontFamily_returns_exempt_name_unchanged [of "Str ''abc-Foo''" exampleEnv initial]
  by (simp add: exampleEnv_def)

text \<open>
  Claim C7. In a reachable state, for a non-empty name that is neither \<open>System\<close> nor a
  system font, contains neither \<open>FuturaBT\<close> nor the session identifier, and is not
  loaded, \<open>processFontFamily\<close> returns \<open>System\<close> (it does not throw), whether or not
  the name is in flight, and it changes neither of the two objects, nor the operations,
  the \<open>Promise.all\<close>s or the collaborator calls. For no argument at all does it change
  \<open>loaded\<close> or \<open>loadPromises\<close>.
\<close>

theorem processFontFamily_falls_back_to_System:
  assumes "reachable env s"
    and "n \<noteq> []" "n \<noteq> ''System''" "n \<notin> set (systemFonts env)"
    and "\<not> str_includes n ''FuturaBT''" "\<not> str_includes n (sessionId env)"
    and "isLoaded s n = Inr False"
  shows "fst (processFontFamily env (Str n) s) = Inr (Str ''System'') \<and>
    loaded (snd (processFontFamily env (Str n) s)) = loaded s \<and>
    loadPromises (snd (processFontFamily env (Str n) s)) = loadPromises s \<and>
    operations (snd (processFontFamily env (Str n) s)) = operations s \<and>
    aggregates (snd (processFontFamily env (Str n) s)) = aggregates s \<and>
    collaboratorCalls (snd (processFontFamily env (Str n) s)) = collaboratorCalls s \<and>
    (\<forall>name. loaded (snd (processFontFamily env name s)) = loaded s \<and>
            loadPromises (snd (processFontFamily env name s)) = loadPromises s)"
proof -
  have "fst (processFontFamily env (Str n) s) = Inr (Str ''System'')"
    using assms(2-7)
    by (cases "loadPromises s n")
       (simp_all add: processFontFamily_def isLoaded_reachable(2) [OF assms(1)])
  then show ?thesis by simp
qed

text \<open>In the example run: \<open>Foo\<close> while it is loading, and \<open>Bar\<close>, never requested.\<close>

theorem processFontFamily_falls_back_to_System_witness:
  "isLoaded fooLoading ''Foo'' = Inr False \<and> isLoading fooLoading ''Foo'' = Inr True \<and>
   fst (processFontFamily exampleEnv (Str ''Foo'') fooLoading) = Inr (Str ''System'') \<and>
   isLoaded fooLoading ''Bar'' = Inr False \<and> isLoading fooLoading ''Bar'' = Inr False \<and>
   fst (processFontFamily exampleEnv (Str ''Bar'') fooLoading) = Inr (Str ''System'')"
proof -
  have l: "isLoaded fooLoading ''Foo'' = Inr False" "isLoaded fooLoading ''Bar'' = Inr False"
    "isLoading fooLoading ''Foo'' = Inr True" "isLoading fooLoading ''Bar'' = Inr False"
    by (simp_all add: isLoaded_def isLoading_def hasOwnProperty_def fooLoading_eq)
  from processFontFamily_falls_back_to_System [OF foo_reachable(1), of "''Foo''"] l(1)
  have a: "fst (processFontFamily exampleEnv (Str ''Foo'') fooLoading) = Inr (Str ''System'')"
    by (simp add: exampleEnv_def)
  from processFontFamily_falls_back_to_System [OF foo_reachable(1), of "''Bar''"] l(2)
  have b: "fst (processFontFamily exampleEnv (Str ''Bar'') fooLoading) = Inr (Str ''System'')"
    by (simp add: exampleEnv_def)
  from l a b show ?thesis by simp
qed

text \<open>
  Claim C8. The claim fails for the name \<open>toString\<close>: at the start \<open>isLoaded\<close> and
  \<open>isLoading\<close> are both false for it, and \<open>loadAsync\<close> without a source returns a
  fulfilled promise instead of failing. (For a name that passes both checks of
  \<open>loadAsync\<close> the call does fail and leaves the state as it is:
  \<open>loadAsync_fresh_name_bad_source\<close>.)
\<close>

theorem loadAsync_toString_without_source:
  "isLoaded initial ''toString'' = Inr False \<and> isLoading initial ''toString'' = Inr False \<and>
   loadAsync (Name ''toString'') None initial = (Resolved Fulfilled, initial)"
  by (simp add: isLoaded_def isLoading_def hasOwnProperty_def initial_def loadAsync_def
        loadAsyncName_def truthyProperty_def getProperty_def objectPrototypeKeys_def)

text \<open>
  Claim C9. For an operation that waits for its download, in a reachable state: when
  the download completes and the asset's \<open>downloaded\<close> is false, the operation's
  promise is rejected with the error \<open>Failed to download asset for font "name"\<close>, no
  collaborator is called, \<open>loaded\<close> is as before and \<open>isLoaded\<close> is false for the name;
  when \<open>downloaded\<close> is true, the one call made is the native loader's, with the
  session identifier, a dash and the name, and with the asset's \<open>localUri\<close>.
\<close>

theorem download_outcome_decides_native_call:
  assumes "reachable env s" "atStage s p AwaitDownload"
  shows "\<exists>s'. step env (DownloadSettles p (Inr a)) s = Some s' \<and>
    (if downloaded a
     then collaboratorCalls s' = collaboratorCalls s @
            [(p, NativeLoadAsync (sessionId env @ ''-'' @ op_name (operations s ! p)) (localUri a))]
          \<and> atStage s' p AwaitNative \<and> loaded s' = loaded s
     else outcome s' (Follows p) =
            Some (Rejected (Error (''Failed to download asset for font '' @ [CHR 0x22] @
                                   op_name (operations s ! p) @ [CHR 0x22])))
          \<and> collaboratorCalls s' = collaboratorCalls s \<and> loaded s' = loaded s
          \<and> isLoaded s' (op_name (operations s ! p)) = Inr False)"
proof -
  let ?s' = "downloadSettled env p (Inr a) s"
  let ?name = "op_name (operations s ! p)"
  have st: "step env (DownloadSettles p (Inr a)) s = Some ?s'" using assms(2) by (simp add: step_def)
  have r': "reachable env ?s'" using assms(1) st by (rule reachable_step)
  from assms(2) have p: "p < length (operations s)" by (simp add: atStage_def)
  have inv: "inFlightInv s" using assms(1) by (rule reachable_inFlightInv)
  have "loadPromises s ?name = Some p"
    using inFlightInvD(3) [OF inv atStage_pending(1) [OF assms(2)]] .
  then have notLoaded: "loaded s ?name = None" using in_flight_not_loaded(1) [OF inv] by blast
  show ?thesis
  proof (cases "downloaded a")
    case True
    then have "?s' = advanced env p a s"
      by (simp add: downloadSettled_def loadSingleFontAsync_resumed_def advanced_def)
    with True p st show ?thesis
      by (simp add: advanced_def atStage_def getNativeFontName_def)
  next
    case False
    then have s': "?s' = settleOperation p (Rejected (Error (downloadFailedMessage ?name))) s"
      by (simp add: downloadSettled_def loadSingleFontAsync_resumed_def)
    have "isLoaded ?s' ?name = Inr False"
      using notLoaded by (simp add: isLoaded_reachable(1) [OF r'])
    with False p st show ?thesis
      by (simp add: s' stageOutcome_def downloadFailedMessage_def)
  qed
qed

text \<open>In the example run: the download of \<open>Foo\<close> succeeding, and failing.\<close>

theorem download_outcome_decides_native_call_witness:
  "(\<exists>s'. step exampleEnv (DownloadSettles 0 (Inr fooFile)) fooLoading = Some s' \<and>
      collaboratorCalls s' = [(0, DownloadAsync (FromModule 1)),
                              (0, NativeLoadAsync ''abc-Foo'' (Some ''file:///Foo.ttf''))]) \<and>
   (\<exists>s'. step exampleEnv (DownloadSettles 0 (Inr noFile)) fooLoading = Some s' \<and>
      outcome s' (Follows 0) =
        Some (Rejected (Error (''Failed to download asset for font '' @ [CHR 0x22] @ ''Foo'' @ [CHR 0x22]))) \<and>
      collaboratorCalls s' = [(0, DownloadAsync (FromModule 1))] \<and>
      isLoaded s' ''Foo'' = Inr False)"
proof -
  have st: "atStage fooLoading 0 AwaitDownload" by (simp add: atStage_def fooLoading_eq)
  from download_outcome_decides_native_call [OF foo_reachable(1) st, of fooFile]
  obtain s1 where "step exampleEnv (DownloadSettles 0 (Inr fooFile)) fooLoading = Some s1"
    "collaboratorCalls s1 = [(0, DownloadAsync (FromModule 1)),
                              (0, NativeLoadAsync ''abc-Foo'' (Some ''file:///Foo.ttf''))]"
    by (auto simp: fooFile_def fooLoading_eq exampleEnv_def)
  then have a: "\<exists>s'. step exampleEnv (DownloadSettles 0 (Inr fooFile)) fooLoading = Some s' \<and>
      collaboratorCalls s' = [(0, DownloadAsync (FromModule 1)),
                              (0, NativeLoadAsync ''abc-Foo'' (Some ''file:///Foo.ttf''))]"
    by blast
  from download_outcome_decides_native_call [OF foo_reachable(1) st, of noFile]
  obtain s2 where "step exampleEnv (DownloadSettles 0 (Inr noFile)) fooLoading = Some s2"
    "outcome s2 (Follows 0) =
        Some (Rejected (Error (''Failed to download asset for font '' @ [CHR 0x22] @ ''Foo'' @ [CHR 0x22])))"
    "collaboratorCalls s2 = [(0, DownloadAsync (FromModule 1))]"
    "isLoaded s2 ''Foo'' = Inr False"
    by (auto simp: noFile_def fooLoading_eq)
  then have b: "\<exists>s'. step exampleEnv (DownloadSettles 0 (Inr noFile)) fooLoading = Some s' \<and>
      outcome s' (Follows 0) =
        Some (Rejected (Error (''Failed to download asset for font '' @ [CHR 0x22] @ ''Foo'' @ [CHR 0x22]))) \<and>
      collaboratorCalls s' = [(0, DownloadAsync (FromModule 1))] \<and>
      isLoaded s' ''Foo'' = Inr False"
    by blast
  from a b show ?thesis by blast
qed

text \<open>
  Claim C10. In a reachable state:
  (1) a call of \<open>loadAsync\<close> with a font map returns a new \<open>Promise.all\<close> with one
  member per entry, in order: the promise of the single-name call for that entry, made
  after the calls for the entries before it. When the call returns every member is
  settled at once or follows a pending operation for its entry's name, so all entries
  are in flight together. If members are rejected already, the \<open>Promise.all\<close> is
  rejected with the reason of the first of them in the order of the entries;
  (2) a \<open>Promise.all\<close> is fulfilled exactly when all its members are fulfilled; it is
  rejected as soon as a member is rejected, with the reason of a rejected member, and
  once settled it keeps its state along every run. The step that rejects a pending
  \<open>Promise.all\<close> is the first to reject a member of it: no member was rejected before
  the step, and the members rejected after it all have the reason that the
  \<open>Promise.all\<close> has taken;
  (3) nothing cancels an operation: one that waits for its download, or for the native
  loader, is completed by its own settlements, and its name is then loaded; and a step
  that is not a settlement of its own promises, such as the failure of another entry,
  leaves a pending operation as it is;
  (4) for the font map \<open>{A: sourceA, B: sourceB}\<close>, after any run in which the promise
  of \<open>B\<close> is rejected and the promise of \<open>A\<close> is not, the overall promise is rejected
  with the reason of \<open>B\<close>; if the promise of \<open>A\<close> is fulfilled then \<open>A\<close> is loaded;
  and if it is pending, it follows an operation for \<open>A\<close> that waits for its download or
  for the native loader, and when these succeed \<open>A\<close> is loaded, the overall promise
  being rejected as before.
\<close>

theorem loadAsync_font_map_waits_for_all_and_cancels_none:
  assumes "reachable env s"
  shows
  "(\<forall>fontMap src. \<exists>s1.
      loadAsync (FontMap fontMap) src s = (All (length (aggregates s)), s1) \<and>
      length (aggregates s) < length (aggregates s1) \<and>
      length (members (aggregates s1 ! length (aggregates s))) = length fontMap \<and>
      (\<forall>i < length fontMap.
         (\<exists>r. members (aggregates s1 ! length (aggregates s)) ! i = Resolved r) \<or>
         (\<exists>p. members (aggregates s1 ! length (aggregates s)) ! i = Follows p \<and> pending s1 p \<and>
              op_name (operations s1 ! p) = fst (fontMap ! i))) \<and>
      (\<forall>i < length fontMap.
         members (aggregates s1 ! length (aggregates s)) ! i =
           fst (loadAsyncName (fst (fontMap ! i)) (snd (fontMap ! i))
                  (snd (loadEntries (take i fontMap) s)))) \<and>
      (\<forall>i e. i < length fontMap \<and>
           outcome s1 (members (aggregates s1 ! length (aggregates s)) ! i) = Some (Rejected e) \<and>
           (\<forall>j < i. \<forall>y. outcome s1 (members (aggregates s1 ! length (aggregates s)) ! j)
                          \<noteq> Some (Rejected y))
         \<longrightarrow> outcome s1 (All (length (aggregates s))) = Some (Rejected e)))
 \<and> (\<forall>k < length (aggregates s).
      (outcome s (All k) = Some Fulfilled \<longleftrightarrow>
         (\<forall>m \<in> set (members (aggregates s ! k)). outcome s m = Some Fulfilled)) \<and>
      (\<forall>e. (\<exists>m \<in> set (members (aggregates s ! k)). outcome s m = Some (Rejected e))
           \<longrightarrow> (\<exists>e'. outcome s (All k) = Some (Rejected e'))) \<and>
      (\<forall>e. outcome s (All k) = Some (Rejected e)
           \<longrightarrow> (\<exists>m \<in> set (members (aggregates s ! k)). outcome s m = Some (Rejected e))) \<and>
      (\<forall>r es s'. outcome s (All k) = Some r \<and> run env es s = Some s' \<longrightarrow> outcome s' (All k) = Some r) \<and>
      (\<forall>ev s' err. outcome s (All k) = None \<and> step env ev s = Some s' \<and>
                   outcome s' (All k) = Some (Rejected err)
         \<longrightarrow> (\<forall>m \<in> set (members (aggregates s ! k)). \<forall>y. outcome s m \<noteq> Some (Rejected y)) \<and>
             (\<exists>m \<in> set (members (aggregates s ! k)). outcome s' m = Some (Rejected err)) \<and>
             (\<forall>m \<in> set (members (aggregates s ! k)). \<forall>y.
                outcome s' m = Some (Rejected y) \<longrightarrow> y = err)))
 \<and> (\<forall>p a.
      (atStage s p AwaitDownload \<and> downloaded a \<longrightarrow>
         (\<exists>s'. run env [DownloadSettles p (Inr a), NativeSettles p None] s = Some s' \<and>
               outcome s' (Follows p) = Some Fulfilled \<and>
               isLoaded s' (op_name (operations s ! p)) = Inr True)) \<and>
      (atStage s p AwaitNative \<longrightarrow>
         (\<exists>s'. run env [NativeSettles p None] s = Some s' \<and>
               outcome s' (Follows p) = Some Fulfilled \<and>
               isLoaded s' (op_name (operations s ! p)) = Inr True)) \<and>
      (\<forall>ev s'. pending s p \<and> step env ev s = Some s' \<and>
                (\<forall>y. ev \<noteq> DownloadSettles p y) \<and> (\<forall>y. ev \<noteq> NativeSettles p y)
         \<longrightarrow> pending s' p \<and> operations s' ! p = operations s ! p))
 \<and> (\<forall>srcA srcB x. \<exists>s1 mA mB.
      loadAsync (FontMap [(''A'', srcA), (''B'', srcB)]) x s = (All (length (aggregates s)), s1) \<and>
      members (aggregates s1 ! length (aggregates s)) = [mA, mB] \<and>
      (\<forall>es s2 e. run env es s1 = Some s2 \<and> outcome s2 mB = Some (Rejected e) \<and>
                 (\<forall>y. outcome s2 mA \<noteq> Some (Rejected y))
         \<longrightarrow> outcome s2 (All (length (aggregates s))) = Some (Rejected e) \<and>
             (outcome s2 mA = Some Fulfilled \<longrightarrow> isLoaded s2 ''A'' = Inr True) \<and>
             (outcome s2 mA = None \<longrightarrow>
                (\<exists>p. mA = Follows p \<and> op_name (operations s2 ! p) = ''A'' \<and>
                   (atStage s2 p AwaitDownload \<or> atStage s2 p AwaitNative) \<and>
                   (\<forall>f. atStage s2 p AwaitDownload \<and> downloaded f \<longrightarrow>
                      (\<exists>s3. run env [DownloadSettles p (Inr f), NativeSettles p None] s2 = Some s3 \<and>
                            isLoaded s3 ''A'' = Inr True \<and>
                            outcome s3 (All (length (aggregates s))) = Some (Rejected e))) \<and>
                   (atStage s2 p AwaitNative \<longrightarrow>
                      (\<exists>s3. run env [NativeSettles p None] s2 = Some s3 \<and>
                            isLoaded s3 ''A'' = Inr True \<and>
                            outcome s3 (All (length (aggregates s))) = Some (Rejected e)))))))"
proof (intro conjI)
  have inv: "inFlightInv s" using assms by (rule reachable_inFlightInv)
  show "\<forall>fontMap src. \<exists>s1.
      loadAsync (FontMap fontMap) src s = (All (length (aggregates s)), s1) \<and>
      length (aggregates s) < length (aggregates s1) \<and>
      length (members (aggregates s1 ! length (aggregates s))) = length fontMap \<and>
      (\<forall>i < length fontMap.
         (\<exists>r. members (aggregates s1 ! length (aggregates s)) ! i = Resolved r) \<or>
         (\<exists>p. members (aggregates s1 ! length (aggregates s)) ! i = Follows p \<and> pending s1 p \<and>
              op_name (operations s1 ! p) = fst (fontMap ! i))) \<and>
      (\<forall>i < length fontMap.
         members (aggregates s1 ! length (aggregates s)) ! i =
           fst (loadAsyncName (fst (fontMap ! i)) (snd (fontMap ! i))
                  (snd (loadEntries (take i fontMap) s)))) \<and>
      (\<forall>i e. i < length fontMap \<and>
           outcome s1 (members (aggregates s1 ! length (aggregates s)) ! i) = Some (Rejected e) \<and>
           (\<forall>j < i. \<forall>y. outcome s1 (members (aggregates s1 ! length (aggregates s)) ! j)
                          \<noteq> Some (Rejected y))
         \<longrightarrow> outcome s1 (All (length (aggregates s))) = Some (Rejected e))"
  proof (intro allI)
    fix fontMap :: "(string \<times> fontSource option) list" and src :: "fontSource option"
    let ?sE = "snd (loadEntries fontMap s)"
    let ?s1 = "snd (loadAsyncMap fontMap s)"
    let ?k = "length (aggregates s)"
    have eq: "loadAsync (FontMap fontMap) src s = (All ?k, ?s1)"
      by (rule loadAsync_FontMap(1))
    have mem: "members (aggregates ?s1 ! ?k) = fst (loadEntries fontMap s)"
      by (rule loadAsync_FontMap(3))
    have len: "?k < length (aggregates ?s1)"
      by (rule loadAsync_FontMap(2))
    have ops: "operations ?s1 = operations ?sE" by (rule loadAsync_FontMap(4))
    then have pd: "\<And>p. pending ?s1 p = pending ?sE p" by (simp add: pending_def)
    have lenm: "length (fst (loadEntries fontMap s)) = length fontMap"
      using loadEntries_members [OF inv, of fontMap] by simp
    have a: "length (members (aggregates ?s1 ! ?k)) = length fontMap \<and>
      (\<forall>i < length fontMap.
         (\<exists>r. members (aggregates ?s1 ! ?k) ! i = Resolved r) \<or>
         (\<exists>p. members (aggregates ?s1 ! ?k) ! i = Follows p \<and> pending ?s1 p \<and>
              op_name (operations ?s1 ! p) = fst (fontMap ! i)))"
      using loadEntries_members [OF inv, of fontMap] by (simp add: mem pd ops)
    have b: "\<forall>i < length fontMap.
         members (aggregates ?s1 ! ?k) ! i =
           fst (loadAsyncName (fst (fontMap ! i)) (snd (fontMap ! i))
                  (snd (loadEntries (take i fontMap) s)))"
      unfolding mem using loadEntries_nth [of _ fontMap s] by blast
    have c: "\<forall>i e. i < length fontMap \<and>
           outcome ?s1 (members (aggregates ?s1 ! ?k) ! i) = Some (Rejected e) \<and>
           (\<forall>j < i. \<forall>y. outcome ?s1 (members (aggregates ?s1 ! ?k) ! j) \<noteq> Some (Rejected y))
         \<longrightarrow> outcome ?s1 (All ?k) = Some (Rejected e)"
    proof (intro allI impI, elim conjE)
      fix i e
      let ?rs = "map (outcome ?s1) (fst (loadEntries fontMap s))"
      assume i: "i < length fontMap"
        and o: "outcome ?s1 (members (aggregates ?s1 ! ?k) ! i) = Some (Rejected e)"
        and before: "\<forall>j < i. \<forall>y. outcome ?s1 (members (aggregates ?s1 ! ?k) ! j) \<noteq> Some (Rejected y)"
      from i have i': "i < length ?rs" by (simp add: lenm)
      have "?rs ! i = Some (Rejected e)" using o i by (simp add: mem lenm)
      moreover have "\<forall>j < i. \<forall>y. ?rs ! j \<noteq> Some (Rejected y)"
        using before i by (simp add: mem lenm)
      ultimately have "promiseAll ?rs = Some (Rejected e)"
        using i' by (intro promiseAll_first_rejection [of i]) simp_all
      then show "outcome ?s1 (All ?k) = Some (Rejected e)"
        by (simp only: loadAsyncMap_outcome [OF inv])
    qed
    from eq len a b c show "\<exists>s1.
      loadAsync (FontMap fontMap) src s = (All (length (aggregates s)), s1) \<and>
      length (aggregates s) < length (aggregates s1) \<and>
      length (members (aggregates s1 ! length (aggregates s))) = length fontMap \<and>
      (\<forall>i < length fontMap.
         (\<exists>r. members (aggregates s1 ! length (aggregates s)) ! i = Resolved r) \<or>
         (\<exists>p. members (aggregates s1 ! length (aggregates s)) ! i = Follows p \<and> pending s1 p \<and>
              op_name (operations s1 ! p) = fst (fontMap ! i))) \<and>
      (\<forall>i < length fontMap.
         members (aggregates s1 ! length (aggregates s)) ! i =
           fst (loadAsyncName (fst (fontMap ! i)) (snd (fontMap ! i))
                  (snd (loadEntries (take i fontMap) s)))) \<and>
      (\<forall>i e. i < length fontMap \<and>
           outcome s1 (members (aggregates s1 ! length (aggregates s)) ! i) = Some (Rejected e) \<and>
           (\<forall>j < i. \<forall>y. outcome s1 (members (aggregates s1 ! length (aggregates s)) ! j)
                          \<noteq> Some (Rejected y))
         \<longrightarrow> outcome s1 (All (length (aggregates s))) = Some (Rejected e))"
      by (intro exI [of _ ?s1] conjI) blast+
  qed
next
  show "\<forall>k < length (aggregates s).
      (outcome s (All k) = Some Fulfilled \<longleftrightarrow>
         (\<forall>m \<in> set (members (aggregates s ! k)). outcome s m = Some Fulfilled)) \<and>
      (\<forall>e. (\<exists>m \<in> set (members (aggregates s ! k)). outcome s m = Some (Rejected e))
           \<longrightarrow> (\<exists>e'. outcome s (All k) = Some (Rejected e'))) \<and>
      (\<forall>e. outcome s (All k) = Some (Rejected e)
           \<longrightarrow> (\<exists>m \<in> set (members (aggregates s ! k)). outcome s m = Some (Rejected e))) \<and>
      (\<forall>r es s'. outcome s (All k) = Some r \<and> run env es s = Some s' \<longrightarrow> outcome s' (All k) = Some r) \<and>
      (\<forall>ev s' err. outcome s (All k) = None \<and> step env ev s = Some s' \<and>
                   outcome s' (All k) = Some (Rejected err)
         \<longrightarrow> (\<forall>m \<in> set (members (aggregates s ! k)). \<forall>y. outcome s m \<noteq> Some (Rejected y)) \<and>
             (\<exists>m \<in> set (members (aggregates s ! k)). outcome s' m = Some (Rejected err)) \<and>
             (\<forall>m \<in> set (members (aggregates s ! k)). \<forall>y.
                outcome s' m = Some (Rejected y) \<longrightarrow> y = err))"
  proof (intro allI impI)
    fix k assume k: "k < length (aggregates s)"
    note ao = aggregate_outcome [OF assms k]
    have a: "outcome s (All k) = Some Fulfilled \<longleftrightarrow>
         (\<forall>m \<in> set (members (aggregates s ! k)). outcome s m = Some Fulfilled)" by (rule ao(1))
    have b: "\<forall>e. (\<exists>m \<in> set (members (aggregates s ! k)). outcome s m = Some (Rejected e))
           \<longrightarrow> (\<exists>e'. outcome s (All k) = Some (Rejected e'))"
      using ao(3) by blast
    have c: "\<forall>e. outcome s (All k) = Some (Rejected e)
           \<longrightarrow> (\<exists>m \<in> set (members (aggregates s ! k)). outcome s m = Some (Rejected e))"
      using ao(2) by blast
    have d: "\<forall>r es s'. outcome s (All k) = Some r \<and> run env es s = Some s' \<longrightarrow> outcome s' (All k) = Some r"
    proof (intro allI impI, elim conjE)
      fix r es s' assume o: "outcome s (All k) = Some r" and r: "run env es s = Some s'"
      from run_aggregate [OF r k] o k show "outcome s' (All k) = Some r" by simp
    qed
    have e: "\<forall>ev s' err. outcome s (All k) = None \<and> step env ev s = Some s' \<and>
                   outcome s' (All k) = Some (Rejected err)
         \<longrightarrow> (\<forall>m \<in> set (members (aggregates s ! k)). \<forall>y. outcome s m \<noteq> Some (Rejected y)) \<and>
             (\<exists>m \<in> set (members (aggregates s ! k)). outcome s' m = Some (Rejected err)) \<and>
             (\<forall>m \<in> set (members (aggregates s ! k)). \<forall>y.
                outcome s' m = Some (Rejected y) \<longrightarrow> y = err)"
    proof (intro allI impI, elim conjE)
      fix ev s' err
      assume o: "outcome s (All k) = None" and st: "step env ev s = Some s'"
        and o': "outcome s' (All k) = Some (Rejected err)"
      from first_rejection_step [OF assms st k o o']
      show "(\<forall>m \<in> set (members (aggregates s ! k)). \<forall>y. outcome s m \<noteq> Some (Rejected y)) \<and>
             (\<exists>m \<in> set (members (aggregates s ! k)). outcome s' m = Some (Rejected err)) \<and>
             (\<forall>m \<in> set (members (aggregates s ! k)). \<forall>y.
                outcome s' m = Some (Rejected y) \<longrightarrow> y = err)"
        by (intro conjI)
    qed
    from a b c d e show "(outcome s (All k) = Some Fulfilled \<longleftrightarrow>
         (\<forall>m \<in> set (members (aggregates s ! k)). outcome s m = Some Fulfilled)) \<and>
      (\<forall>e. (\<exists>m \<in> set (members (aggregates s ! k)). outcome s m = Some (Rejected e))
           \<longrightarrow> (\<exists>e'. outcome s (All k) = Some (Rejected e'))) \<and>
      (\<forall>e. outcome s (All k) = Some (Rejected e)
           \<longrightarrow> (\<exists>m \<in> set (members (aggregates s ! k)). outcome s m = Some (Rejected e))) \<and>
      (\<forall>r es s'. outcome s (All k) = Some r \<and> run env es s = Some s' \<longrightarrow> outcome s' (All k) = Some r) \<and>
      (\<forall>ev s' err. outcome s (All k) = None \<and> step env ev s = Some s' \<and>
                   outcome s' (All k) = Some (Rejected err)
         \<longrightarrow> (\<forall>m \<in> set (members (aggregates s ! k)). \<forall>y. outcome s m \<noteq> Some (Rejected y)) \<and>
             (\<exists>m \<in> set (members (aggregates s ! k)). outcome s' m = Some (Rejected err)) \<and>
             (\<forall>m \<in> set (members (aggregates s ! k)). \<forall>y.
                outcome s' m = Some (Rejected y) \<longrightarrow> y = err))"
      by (intro conjI)
  qed
next
  have others: "pending s' p \<and> operations s' ! p = operations s ! p"
    if pd: "pending s p" and st: "step env ev s = Some s'"
      and nd: "\<forall>y. ev \<noteq> DownloadSettles p y" and nn: "\<forall>y. ev \<noteq> NativeSettles p y"
    for p ev s'
  proof -
    from pd have p: "p < length (operations s)" by (simp add: pending_def)
    from step_operation(2) [OF st p] nd nn have same: "operations s' ! p = operations s ! p" by blast
    with pd step_operation(1) [OF st p] show ?thesis by (simp add: pending_def)
  qed
  show "\<forall>p a.
      (atStage s p AwaitDownload \<and> downloaded a \<longrightarrow>
         (\<exists>s'. run env [DownloadSettles p (Inr a), NativeSettles p None] s = Some s' \<and>
               outcome s' (Follows p) = Some Fulfilled \<and>
               isLoaded s' (op_name (operations s ! p)) = Inr True)) \<and>
      (atStage s p AwaitNative \<longrightarrow>
         (\<exists>s'. run env [NativeSettles p None] s = Some s' \<and>
               outcome s' (Follows p) = Some Fulfilled \<and>
               isLoaded s' (op_name (operations s ! p)) = Inr True)) \<and>
      (\<forall>ev s'. pending s p \<and> step env ev s = Some s' \<and>
                (\<forall>y. ev \<noteq> DownloadSettles p y) \<and> (\<forall>y. ev \<noteq> NativeSettles p y)
         \<longrightarrow> pending s' p \<and> operations s' ! p = operations s ! p)"
    using download_success_loads [OF assms] native_success_loads [OF assms] others by blast
next
  have inv: "inFlightInv s" using assms by (rule reachable_inFlightInv)
  show "\<forall>srcA srcB x. \<exists>s1 mA mB.
      loadAsync (FontMap [(''A'', srcA), (''B'', srcB)]) x s = (All (length (aggregates s)), s1) \<and>
      members (aggregates s1 ! length (aggregates s)) = [mA, mB] \<and>
      (\<forall>es s2 e. run env es s1 = Some s2 \<and> outcome s2 mB = Some (Rejected e) \<and>
                 (\<forall>y. outcome s2 mA \<noteq> Some (Rejected y))
         \<longrightarrow> outcome s2 (All (length (aggregates s))) = Some (Rejected e) \<and>
             (outcome s2 mA = Some Fulfilled \<longrightarrow> isLoaded s2 ''A'' = Inr True) \<and>
             (outcome s2 mA = None \<longrightarrow>
                (\<exists>p. mA = Follows p \<and> op_name (operations s2 ! p) = ''A'' \<and>
                   (atStage s2 p AwaitDownload \<or> atStage s2 p AwaitNative) \<and>
                   (\<forall>f. atStage s2 p AwaitDownload \<and> downloaded f \<longrightarrow>
                      (\<exists>s3. run env [DownloadSettles p (Inr f), NativeSettles p None] s2 = Some s3 \<and>
                            isLoaded s3 ''A'' = Inr True \<and>
                            outcome s3 (All (length (aggregates s))) = Some (Rejected e))) \<and>
                   (atStage s2 p AwaitNative \<longrightarrow>
                      (\<exists>s3. run env [NativeSettles p None] s2 = Some s3 \<and>
                            isLoaded s3 ''A'' = Inr True \<and>
                            outcome s3 (All (length (aggregates s))) = Some (Rejected e))))))"
  proof (intro allI)
    fix srcA srcB x :: "fontSource option"
    let ?fm = "[(''A'', srcA), (''B'', srcB)]"
    let ?k = "length (aggregates s)"
    let ?sA = "snd (loadAsyncName ''A'' srcA s)"
    let ?mA = "fst (loadAsyncName ''A'' srcA s)"
    let ?sB = "snd (loadAsyncName ''B'' srcB ?sA)"
    let ?mB = "fst (loadAsyncName ''B'' srcB ?sA)"
    let ?s1 = "snd (loadAsyncMap ?fm s)"
    have le: "loadEntries ?fm s = ([?mA, ?mB], ?sB)"
      by (simp only: loadEntries_Cons loadEntries.simps(1) fst_conv snd_conv)
    have eq: "loadAsync (FontMap ?fm) x s = (All ?k, ?s1)"
      by (rule loadAsync_FontMap(1))
    have mem: "members (aggregates ?s1 ! ?k) = [?mA, ?mB]"
      using loadAsync_FontMap(3) [of ?fm s] unfolding le by simp
    have k1: "?k < length (aggregates ?s1)" by (rule loadAsync_FontMap(2))
    have ops1: "operations ?s1 = operations ?sB"
      using loadAsync_FontMap(4) [of ?fm s] unfolding le by simp
    have r1: "reachable env ?s1"
      using reachable_loadAsync [OF assms, of "FontMap ?fm" x] by (simp add: eq)
    have notproto: "''A'' \<notin> set objectPrototypeKeys" by (simp add: objectPrototypeKeys_def)
    have "promiseOf ?sA ''A'' ?mA" using inv notproto by (rule promiseOf_loadAsyncName)
    moreover have "step env (CallLoadAsync (Name ''B'') srcB) ?sA = Some ?sB"
      by (simp add: step_def loadAsync_def)
    ultimately have "promiseOf ?sB ''A'' ?mA" by (rule promiseOf_step [rotated])
    moreover have "loaded ?s1 = loaded ?sB" by simp
    ultimately have pA: "promiseOf ?s1 ''A'' ?mA"
      using promiseOf_cong [of ?s1 ?sB "''A''" ?mA] ops1 by simp
    have main: "outcome s2 (All ?k) = Some (Rejected e) \<and>
             (outcome s2 ?mA = Some Fulfilled \<longrightarrow> isLoaded s2 ''A'' = Inr True) \<and>
             (outcome s2 ?mA = None \<longrightarrow>
                (\<exists>p. ?mA = Follows p \<and> op_name (operations s2 ! p) = ''A'' \<and>
                   (atStage s2 p AwaitDownload \<or> atStage s2 p AwaitNative) \<and>
                   (\<forall>f. atStage s2 p AwaitDownload \<and> downloaded f \<longrightarrow>
                      (\<exists>s3. run env [DownloadSettles p (Inr f), NativeSettles p None] s2 = Some s3 \<and>
                            isLoaded s3 ''A'' = Inr True \<and>
                            outcome s3 (All ?k) = Some (Rejected e))) \<and>
                   (atStage s2 p AwaitNative \<longrightarrow>
                      (\<exists>s3. run env [NativeSettles p None] s2 = Some s3 \<and>
                            isLoaded s3 ''A'' = Inr True \<and>
                            outcome s3 (All ?k) = Some (Rejected e)))))"
      if run: "run env es ?s1 = Some s2" and oB: "outcome s2 ?mB = Some (Rejected e)"
        and oA: "\<forall>y. outcome s2 ?mA \<noteq> Some (Rejected y)"
      for es s2 e
    proof -
      have r2: "reachable env s2" using r1 run by (rule reachable_run)
      from run_aggregate [OF run k1] mem
      have k2: "?k < length (aggregates s2)" and mem2: "members (aggregates s2 ! ?k) = [?mA, ?mB]"
        by simp_all
      from aggregate_outcome(3) [OF r2 k2, of ?mB e] oB mem2
      obtain e' where e': "outcome s2 (All ?k) = Some (Rejected e')" by auto
      from aggregate_outcome(2) [OF r2 k2 e'] mem2 oA oB have "e' = e" by auto
      with e' have rej: "outcome s2 (All ?k) = Some (Rejected e)" by simp
      have pA2: "promiseOf s2 ''A'' ?mA" using run pA by (rule promiseOf_run)
      have ful: "outcome s2 ?mA = Some Fulfilled \<longrightarrow> isLoaded s2 ''A'' = Inr True"
        using promiseOf_loaded [OF r2 pA2] by blast
      have keeps: "outcome s3 (All ?k) = Some (Rejected e)" if "run env es' s2 = Some s3" for es' s3
        using run_aggregate [OF that k2] rej k2 by simp
      have pend: "\<exists>p. ?mA = Follows p \<and> op_name (operations s2 ! p) = ''A'' \<and>
                   (atStage s2 p AwaitDownload \<or> atStage s2 p AwaitNative) \<and>
                   (\<forall>f. atStage s2 p AwaitDownload \<and> downloaded f \<longrightarrow>
                      (\<exists>s3. run env [DownloadSettles p (Inr f), NativeSettles p None] s2 = Some s3 \<and>
                            isLoaded s3 ''A'' = Inr True \<and>
                            outcome s3 (All ?k) = Some (Rejected e))) \<and>
                   (atStage s2 p AwaitNative \<longrightarrow>
                      (\<exists>s3. run env [NativeSettles p None] s2 = Some s3 \<and>
                            isLoaded s3 ''A'' = Inr True \<and>
                            outcome s3 (All ?k) = Some (Rejected e)))"
        if none: "outcome s2 ?mA = None"
      proof (cases ?mA)
        case (Resolved r)
        with none show ?thesis by simp
      next
        case (All j)
        with pA2 show ?thesis by simp
      next
        case (Follows p)
        with pA2 have p: "p < length (operations s2)" and nm: "op_name (operations s2 ! p) = ''A''"
          by simp_all
        from none Follows p have "stageOutcome (op_stage (operations s2 ! p)) = None" by simp
        then have at: "atStage s2 p AwaitDownload \<or> atStage s2 p AwaitNative"
          using p by (cases "op_stage (operations s2 ! p)") (simp_all add: atStage_def stageOutcome_def)
        have dl: "\<exists>s3. run env [DownloadSettles p (Inr f), NativeSettles p None] s2 = Some s3 \<and>
                            isLoaded s3 ''A'' = Inr True \<and> outcome s3 (All ?k) = Some (Rejected e)"
          if "atStage s2 p AwaitDownload \<and> downloaded f" for f
        proof -
          from that download_success_loads [OF r2, of p f] obtain s3 where
            s3: "run env [DownloadSettles p (Inr f), NativeSettles p None] s2 = Some s3"
              "isLoaded s3 (op_name (operations s2 ! p)) = Inr True"
            by blast
          with keeps [OF s3(1)] show ?thesis by (simp only: nm) blast
        qed
        have nt: "\<exists>s3. run env [NativeSettles p None] s2 = Some s3 \<and>
                            isLoaded s3 ''A'' = Inr True \<and> outcome s3 (All ?k) = Some (Rejected e)"
          if "atStage s2 p AwaitNative"
        proof -
          from that native_success_loads [OF r2, of p] obtain s3 where
            s3: "run env [NativeSettles p None] s2 = Some s3"
              "isLoaded s3 (op_name (operations s2 ! p)) = Inr True"
            by blast
          with keeps [OF s3(1)] show ?thesis by (simp only: nm) blast
        qed
        from Follows nm at dl nt show ?thesis by blast
      qed
      from rej ful pend show ?thesis by blast
    qed
    from eq mem main show "\<exists>s1 mA mB.
      loadAsync (FontMap ?fm) x s = (All ?k, s1) \<and>
      members (aggregates s1 ! ?k) = [mA, mB] \<and>
      (\<forall>es s2 e. run env es s1 = Some s2 \<and> outcome s2 mB = Some (Rejected e) \<and>
                 (\<forall>y. outcome s2 mA \<noteq> Some (Rejected y))
         \<longrightarrow> outcome s2 (All ?k) = Some (Rejected e) \<and>
             (outcome s2 mA = Some Fulfilled \<longrightarrow> isLoaded s2 ''A'' = Inr True) \<and>
             (outcome s2 mA = None \<longrightarrow>
                (\<exists>p. mA = Follows p \<and> op_name (operations s2 ! p) = ''A'' \<and>
                   (atStage s2 p AwaitDownload \<or> atStage s2 p AwaitNative) \<and>
                   (\<forall>f. atStage s2 p AwaitDownload \<and> downloaded f \<longrightarrow>
                      (\<exists>s3. run env [DownloadSettles p (Inr f), NativeSettles p None] s2 = Some s3 \<and>
                            isLoaded s3 ''A'' = Inr True \<and>
                            outcome s3 (All ?k) = Some (Rejected e))) \<and>
                   (atStage s2 p AwaitNative \<longrightarrow>
                      (\<exists>s3. run env [NativeSettles p None] s2 = Some s3 \<and>
                            isLoaded s3 ''A'' = Inr True \<and>
                            outcome s3 (All ?k) = Some (Rejected e))))))"
      by (intro exI [of _ ?s1] exI [of _ ?mA] exI [of _ ?mB] conjI) blast+
  qed
qed

text \<open>
  The run of the font map: the overall promise is rejected when \<open>B\<close> fails, \<open>A\<close> is
  still downloading then, and is loaded two steps later. And for the font map
  \<open>{A: 1, B: 'http://x', C: undefined}\<close> the overall promise is rejected when the
  call returns, with the error of \<open>B\<close>, the first entry that has failed.
\<close>

theorem loadAsync_font_map_waits_for_all_and_cancels_none_witness:
  "loadAsync (FontMap [(''A'', Some (Module 1)), (''B'', Some (Module 2))]) None initial
     = (All 0, abLoading) \<and>
   members (aggregates abLoading ! 0) = [Follows 0, Follows 1] \<and>
   outcome abLoading (All 0) = None \<and>
   run exampleEnv [DownloadSettles 1 (Inr noFile)] abLoading = Some abFailedB \<and>
   outcome abFailedB (All 0) = Some (Rejected (Error (downloadFailedMessage ''B''))) \<and>
   atStage abFailedB 0 AwaitDownload \<and>
   run exampleEnv [DownloadSettles 1 (Inr noFile), DownloadSettles 0 (Inr fooFile), NativeSettles 0 None]
     abLoading = Some abDone \<and>
   outcome abDone (Follows 1) = Some (Rejected (Error (downloadFailedMessage ''B''))) \<and>
   outcome abDone (Follows 0) = Some Fulfilled \<and>
   outcome abDone (All 0) = Some (Rejected (Error (downloadFailedMessage ''B''))) \<and>
   isLoaded abDone ''A'' = Inr True \<and>
   loadAsync (FontMap [(''A'', Some (Module 1)), (''B'', Some (Uri ''http://x'')), (''C'', None)])
     None initial = (All 0, abcLoading) \<and>
   outcome abcLoading (All 0) = Some (Rejected (Error remoteUriMessage))"
proof -
  let ?fm = "[(''A'', Some (Module 1)), (''B'', Some (Module 2))]"
  let ?fm3 = "[(''A'', Some (Module 1)), (''B'', Some (Uri ''http://x'')), (''C'', None)]"
  let ?e = "Error (downloadFailedMessage ''B'')"
  note claim = loadAsync_font_map_waits_for_all_and_cancels_none [OF reachable_initial [of exampleEnv]]
  note scenarios = claim [THEN conjunct2, THEN conjunct2, THEN conjunct2]
  from scenarios [THEN spec, of "Some (Module 1)", THEN spec, of "Some (Module 2)", THEN spec, of None]
  obtain s1 mA mB where
    eq: "loadAsync (FontMap ?fm) None initial = (All (length (aggregates initial)), s1)" and
    mem: "members (aggregates s1 ! length (aggregates initial)) = [mA, mB]" and
    scenario: "\<forall>es s2 e. run exampleEnv es s1 = Some s2 \<and> outcome s2 mB = Some (Rejected e) \<and>
                 (\<forall>y. outcome s2 mA \<noteq> Some (Rejected y))
         \<longrightarrow> outcome s2 (All (length (aggregates initial))) = Some (Rejected e) \<and>
             (outcome s2 mA = Some Fulfilled \<longrightarrow> isLoaded s2 ''A'' = Inr True) \<and>
             (outcome s2 mA = None \<longrightarrow>
                (\<exists>p. mA = Follows p \<and> op_name (operations s2 ! p) = ''A'' \<and>
                   (atStage s2 p AwaitDownload \<or> atStage s2 p AwaitNative) \<and>
                   (\<forall>f. atStage s2 p AwaitDownload \<and> downloaded f \<longrightarrow>
                      (\<exists>s3. run exampleEnv [DownloadSettles p (Inr f), NativeSettles p None] s2 = Some s3 \<and>
                            isLoaded s3 ''A'' = Inr True \<and>
                            outcome s3 (All (length (aggregates initial))) = Some (Rejected e))) \<and>
                   (atStage s2 p AwaitNative \<longrightarrow>
                      (\<exists>s3. run exampleEnv [NativeSettles p None] s2 = Some s3 \<and>
                            isLoaded s3 ''A'' = Inr True \<and>
                            outcome s3 (All (length (aggregates initial))) = Some (Rejected e)))))"
    by (elim exE conjE)
  from eq have s1: "s1 = abLoading" by (simp add: abLoading_def)
  have k: "length (aggregates initial) = 0" by (simp add: initial_def)
  from mem have m: "mA = Follows 0" "mB = Follows 1" by (simp_all add: s1 k abLoading_eq)
  have oB: "outcome abDone (Follows 1) = Some (Rejected ?e)"
    and oA: "outcome abDone (Follows 0) = Some Fulfilled"
    by (simp_all add: abDone_eq stageOutcome_def)
  from oA have nA: "\<forall>y. outcome abDone (Follows 0) \<noteq> Some (Rejected y)" by simp
  from scenario [THEN spec, of "[DownloadSettles 1 (Inr noFile), DownloadSettles 0 (Inr fooFile),
      NativeSettles 0 None]", THEN spec, of abDone, THEN spec, of ?e] ab_run(2) oB oA nA
  have concl: "outcome abDone (All 0) = Some (Rejected ?e) \<and> isLoaded abDone ''A'' = Inr True"
    unfolding s1 m k by blast
  have a: "loadAsync (FontMap ?fm) None initial = (All 0, abLoading)"
    using eq by (simp add: s1 k)
  have b: "members (aggregates abLoading ! 0) = [Follows 0, Follows 1]"
    "outcome abLoading (All 0) = None"
    by (simp_all add: abLoading_eq)
  have c: "outcome abFailedB (All 0) = Some (Rejected ?e)" "atStage abFailedB 0 AwaitDownload"
    by (simp_all add: abFailedB_eq atStage_def)
  from claim [THEN conjunct1, THEN spec, of ?fm3, THEN spec, of None]
  obtain s3 where
    eq3: "loadAsync (FontMap ?fm3) None initial = (All (length (aggregates initial)), s3)" and
    first: "\<forall>i e. i < length ?fm3 \<and>
           outcome s3 (members (aggregates s3 ! length (aggregates initial)) ! i) = Some (Rejected e) \<and>
           (\<forall>j < i. \<forall>y. outcome s3 (members (aggregates s3 ! length (aggregates initial)) ! j)
                          \<noteq> Some (Rejected y))
         \<longrightarrow> outcome s3 (All (length (aggregates initial))) = Some (Rejected e)"
    by blast
  from eq3 have s3: "s3 = abcLoading" by (simp add: abcLoading_def)
  have d: "loadAsync (FontMap ?fm3) None initial = (All 0, abcLoading)"
    using eq3 by (simp add: s3 k)
  have m3: "members (aggregates abcLoading ! 0) ! 1 = Resolved (Rejected (Error remoteUriMessage))"
    "members (aggregates abcLoading ! 0) ! 0 = Follows 0"
    "outcome abcLoading (Follows 0) = None"
    by (simp_all add: abcLoading_eq stageOutcome_def)
  from first [THEN spec, of 1, THEN spec, of "Error remoteUriMessage"] m3
  have e: "outcome abcLoading (All 0) = Some (Rejected (Error remoteUriMessage))"
    unfolding s3 k by simp
  from a b c ab_run oB oA concl d e show ?thesis by simp
qed

end
